theory Spec2Isabelle
  imports Complex_Main
begin

section \<open>JavaScript values\<close>

text \<open>
  The services are TypeScript, and most of their parameters are typed \<^verbatim>\<open>any\<close>, so the
  embedding works over a small universe of JavaScript values.

  \<^item> A string is a list of code units; only code units below 256 are representable.
  \<^item> A Number is a binary64 value: \<^verbatim>\<open>NaN\<close>, an infinity, or a finite number, which is
    represented by the rational it denotes. What an operation computes is rounded to the
    nearest binary64 number by \<open>to_double\<close>, defined below. \<^verbatim>\<open>-0\<close> is identified with
    \<^verbatim>\<open>0\<close>.
  \<^item> A Date is its time value in milliseconds since the epoch, \<open>None\<close> for an invalid
    date.
  \<^item> An object is the list of its own enumerable string-keyed properties in the order
    \<^verbatim>\<open>Object.keys\<close> and \<^verbatim>\<open>for ... in\<close> enumerate them; it inherits from
    \<^verbatim>\<open>Object.prototype\<close>. Own members named \<^verbatim>\<open>toString\<close> or \<^verbatim>\<open>valueOf\<close>
    that would change how the object converts to a string are outside the model.
  \<^item> \<open>JNative f\<close> is the built-in function named \<open>f\<close>, which a property read can
    reach through the prototype chain.
\<close>

datatype jsnum = NaN | PInf | NInf | Fin rat

datatype jsval =
    JUndefined
  | JNull
  | JBool bool
  | JNum jsnum
  | JStr string
  | JDate "int option"
  | JNative string
  | JObj "(string \<times> jsval) list"

datatype js_error = TypeError string | RangeError string | Error string

text \<open>
  What the engine decides and the ECMAScript specification leaves open, or what depends on
  the shortest digits that identify a binary64 number, enters as a parameter: the parse of
  a free-form date string by \<^verbatim>\<open>new Date(s)\<close>, the local-time rendering of
  \<^verbatim>\<open>Date.prototype.toString\<close>, and the digits of a Number that is not an integer of
  magnitude at most \<open>2\<^sup>5\<^sup>3\<close>.
\<close>

record js_runtime =
  date_parse :: "string \<Rightarrow> int option"
  date_to_string :: "int \<Rightarrow> string"
  number_to_string :: "rat \<Rightarrow> string"

subsection \<open>Digits and decimal numerals\<close>

definition is_digit :: "char \<Rightarrow> bool" where
  "is_digit c = (c \<in> set ''0123456789'')"

definition digit_val :: "char \<Rightarrow> nat" where
  "digit_val c = of_char c - 48"

definition digit_char :: "nat \<Rightarrow> char" where
  "digit_char n = ''0123456789'' ! (n mod 10)"

fun show_nat :: "nat \<Rightarrow> string" where
  "show_nat n = (if n < 10 then [digit_char n] else show_nat (n div 10) @ [digit_char (n mod 10)])"

declare show_nat.simps [simp del]

definition show_int :: "int \<Rightarrow> string" where
  "show_int i = (if i < 0 then ''-'' @ show_nat (nat (- i)) else show_nat (nat i))"

definition digits_val :: "string \<Rightarrow> nat" where
  "digits_val s = foldl (\<lambda>a c. 10 * a + digit_val c) 0 s"

subsection \<open>Rounding to binary64\<close>

text \<open>
  \<open>bit_length n\<close> is the number of binary digits of \<open>n\<close>, and \<open>ilog2 x\<close>, for a positive
  \<open>x\<close>, the exponent \<open>e\<close> with \<open>2\<^sup>e \<le> x < 2\<^sup>e\<^sup>+\<^sup>1\<close>.
\<close>

fun bit_length :: "nat \<Rightarrow> nat" where
  "bit_length n = (if n = 0 then 0 else Suc (bit_length (n div 2)))"

declare bit_length.simps [simp del]

definition ilog2 :: "rat \<Rightarrow> int" where
  "ilog2 x =
     (if 1 \<le> x then int (bit_length (nat \<lfloor>x\<rfloor>)) - 1
      else - int (bit_length (nat (\<lceil>1 / x\<rceil> - 1))))"

text \<open>The integer nearest to \<open>q\<close>, the even one of the two when \<open>q\<close> lies halfway.\<close>

definition round_half_even :: "rat \<Rightarrow> int" where
  "round_half_even q =
     (let f = \<lfloor>q\<rfloor>; d = q - of_int f in
      if d < 1 / 2 then f else if 1 / 2 < d then f + 1 else if even f then f else f + 1)"

text \<open>
  The Number for a real \<open>x\<close>, as IEEE 754 rounds to nearest with ties to even: a binary64
  number with exponent \<open>e\<close> is a multiple of \<open>2\<^sup>e\<^sup>-\<^sup>5\<^sup>2\<close>; the exponent is that of \<open>\<bar>x\<bar>\<close>
  but not below \<open>-1022\<close>, where the subnormal numbers begin; \<open>\<bar>x\<bar>\<close> goes to the nearest
  multiple, and to an infinity if that is \<open>2\<^sup>1\<^sup>0\<^sup>2\<^sup>4\<close> or more.
\<close>

definition to_double :: "rat \<Rightarrow> jsnum" where
  "to_double x =
     (if x = 0 then Fin 0
      else
        let a = \<bar>x\<bar>;
            e = max (ilog2 a) (- 1022);
            u = 2 powi (e - 52);
            r = of_int (round_half_even (a / u)) * u
        in if 2 ^ 1024 \<le> r then (if 0 < x then PInf else NInf)
           else Fin (if 0 < x then r else - r))"

definition negate :: "jsnum \<Rightarrow> jsnum" where
  "negate n = (case n of NaN \<Rightarrow> NaN | PInf \<Rightarrow> NInf | NInf \<Rightarrow> PInf | Fin r \<Rightarrow> Fin (- r))"

text \<open>\<^verbatim>\<open>n + 1\<close> on a Number, the new value of \<^verbatim>\<open>n++\<close>.\<close>

definition js_increment :: "jsnum \<Rightarrow> jsnum" where
  "js_increment n = (case n of Fin r \<Rightarrow> to_double (r + 1) | _ \<Rightarrow> n)"

subsection \<open>Truthiness, property reads, conversion to string\<close>

fun truthy :: "jsval \<Rightarrow> bool" where
  "truthy JUndefined = False"
| "truthy JNull = False"
| "truthy (JBool b) = b"
| "truthy (JNum n) = (n \<noteq> NaN \<and> n \<noteq> Fin 0)"
| "truthy (JStr s) = (s \<noteq> [])"
| "truthy (JDate t) = True"
| "truthy (JNative f) = True"
| "truthy (JObj ps) = True"

text \<open>
  The string-keyed members of \<^verbatim>\<open>Object.prototype\<close>. \<^verbatim>\<open>constructor\<close> is the function
  \<^verbatim>\<open>Object\<close>; \<^verbatim>\<open>__proto__\<close> is an accessor that yields the prototype object itself,
  which is an object without enumerable members.
\<close>

definition object_prototype :: "string \<Rightarrow> jsval option" where
  "object_prototype k =
     (if k = ''constructor'' then Some (JNative ''Object'')
      else if k = ''__proto__'' then Some (JObj [])
      else if k \<in> set [''hasOwnProperty'', ''isPrototypeOf'', ''propertyIsEnumerable'',
                        ''toLocaleString'', ''toString'', ''valueOf'',
                        ''__defineGetter__'', ''__defineSetter__'',
                        ''__lookupGetter__'', ''__lookupSetter__'']
      then Some (JNative k)
      else None)"

definition inherited :: "string \<Rightarrow> jsval" where
  "inherited k = (case object_prototype k of Some v \<Rightarrow> v | None \<Rightarrow> JUndefined)"

text \<open>
  \<^verbatim>\<open>o[k]\<close> on a value that is neither \<^verbatim>\<open>null\<close> nor \<^verbatim>\<open>undefined\<close>: the own
  property, else the inherited one, else \<^verbatim>\<open>undefined\<close>. A string has its code units as
  indexed properties and a \<^verbatim>\<open>length\<close>. A primitive, a Date and a function inherit
  from the prototype of their class, whose \<^verbatim>\<open>constructor\<close> is the function of that
  class, and through it from \<^verbatim>\<open>Object.prototype\<close>; the other members of these
  prototypes (the methods of strings, numbers, dates and functions, which differ between
  engine versions) and the own properties of built-in functions are not modelled. The
  read throws on \<^verbatim>\<open>null\<close> and \<^verbatim>\<open>undefined\<close>: \<open>get_prop\<close> stands for the read where
  the code has excluded them, and \<open>read_prop\<close> below for the read where it has not.
\<close>

definition string_index :: "string \<Rightarrow> string \<Rightarrow> nat option" where
  "string_index s k = find (\<lambda>i. show_nat i = k) [0..<length s]"

fun get_prop :: "jsval \<Rightarrow> string \<Rightarrow> jsval" where
  "get_prop (JObj ps) k = (case map_of ps k of Some v \<Rightarrow> v | None \<Rightarrow> inherited k)"
| "get_prop (JStr s) k =
     (case string_index s k of
        Some i \<Rightarrow> JStr [s ! i]
      | None \<Rightarrow> if k = ''length'' then JNum (Fin (of_nat (length s)))
                else if k = ''constructor'' then JNative ''String''
                else inherited k)"
| "get_prop (JNum n) k = (if k = ''constructor'' then JNative ''Number'' else inherited k)"
| "get_prop (JBool b) k = (if k = ''constructor'' then JNative ''Boolean'' else inherited k)"
| "get_prop (JDate t) k = (if k = ''constructor'' then JNative ''Date'' else inherited k)"
| "get_prop (JNative f) k = (if k = ''constructor'' then JNative ''Function'' else inherited k)"
| "get_prop v k = inherited k"

definition is_integer :: "rat \<Rightarrow> bool" where
  "is_integer r = (of_int \<lfloor>r\<rfloor> = r)"

text \<open>
  \<^verbatim>\<open>String(n)\<close> on a Number gives the shortest digits that identify it among the binary64
  numbers. For an integer of magnitude at most \<open>2\<^sup>5\<^sup>3\<close> these are all its decimal digits,
  since the integers up to there are all binary64 numbers; beyond (as in
  \<^verbatim>\<open>18446744073709552000\<close> for \<open>2\<^sup>6\<^sup>4\<close>) and for a fraction they are the runtime's.
\<close>

definition num_to_string :: "js_runtime \<Rightarrow> jsnum \<Rightarrow> string" where
  "num_to_string rt n =
     (case n of
        NaN \<Rightarrow> ''NaN''
      | PInf \<Rightarrow> ''Infinity''
      | NInf \<Rightarrow> ''-Infinity''
      | Fin r \<Rightarrow> if is_integer r \<and> \<bar>r\<bar> \<le> 2 ^ 53 then show_int \<lfloor>r\<rfloor>
                 else number_to_string rt r)"

fun js_String :: "js_runtime \<Rightarrow> jsval \<Rightarrow> string" where
  "js_String rt JUndefined = ''undefined''"
| "js_String rt JNull = ''null''"
| "js_String rt (JBool b) = (if b then ''true'' else ''false'')"
| "js_String rt (JNum n) = num_to_string rt n"
| "js_String rt (JStr s) = s"
| "js_String rt (JDate None) = ''Invalid Date''"
| "js_String rt (JDate (Some t)) = date_to_string rt t"
| "js_String rt (JNative f) = ''function '' @ f @ ''() { [native code] }''"
| "js_String rt (JObj ps) = ''[object Object]''"

text \<open>\<^verbatim>\<open>Array.prototype.join\<close> on an array of strings.\<close>

fun join :: "string \<Rightarrow> string list \<Rightarrow> string" where
  "join sep [] = []"
| "join sep [x] = x"
| "join sep (x # y # ys) = x @ sep @ join sep (y # ys)"

section \<open>FilterService\<close>

type_synonym ColumnMap = "(string \<times> string) list"

record FilterResult =
  whereClause :: string
  params :: "jsval list"
  nextIndex :: jsnum

text \<open>
  \<^verbatim>\<open>buildFilter(query, columnMap, startIndex)\<close>. The query is given as the sequence of
  (key, value) pairs that \<^verbatim>\<open>for (const key in query)\<close> enumerates, paired with
  \<^verbatim>\<open>query[key]\<close>. The column map has the declared type
  \<^verbatim>\<open>{ [key: string]: string }\<close>: an object, given by its own properties, whose values
  are strings. The start index is a Number. The loop mutates two arrays and a counter; the
  model passes them as a state.
\<close>

text \<open>\<^verbatim>\<open>columnMap[key]\<close>: the own property, else the member of \<^verbatim>\<open>Object.prototype\<close>.\<close>

definition column_lookup :: "ColumnMap \<Rightarrow> string \<Rightarrow> jsval" where
  "column_lookup columnMap key =
     (case map_of columnMap key of Some column \<Rightarrow> JStr column | None \<Rightarrow> inherited key)"

definition passes :: "ColumnMap \<Rightarrow> string \<times> jsval \<Rightarrow> bool" where
  "passes columnMap kv =
     (truthy (column_lookup columnMap (fst kv)) \<and> snd kv \<noteq> JNull \<and> snd kv \<noteq> JUndefined
        \<and> snd kv \<noteq> JStr [])"

text \<open>
  The template \<^verbatim>\<open>`${columnName} = $${paramIndex++}`\<close> for a column and the value of the
  counter before the increment.
\<close>

definition fragment :: "js_runtime \<Rightarrow> ColumnMap \<Rightarrow> jsnum \<Rightarrow> string \<times> jsval \<Rightarrow> string" where
  "fragment rt columnMap paramIndex kv =
     js_String rt (column_lookup columnMap (fst kv)) @ '' = $'' @ num_to_string rt paramIndex"

definition filter_step ::
  "js_runtime \<Rightarrow> ColumnMap \<Rightarrow> string list \<times> jsval list \<times> jsnum \<Rightarrow> string \<times> jsval
     \<Rightarrow> string list \<times> jsval list \<times> jsnum" where
  "filter_step rt columnMap st kv =
     (case st of (whereClauses, ps, paramIndex) \<Rightarrow>
        if passes columnMap kv then
          (whereClauses @ [fragment rt columnMap paramIndex kv],
           ps @ [snd kv],
           js_increment paramIndex)
        else st)"

definition filter_loop ::
  "js_runtime \<Rightarrow> (string \<times> jsval) list \<Rightarrow> ColumnMap \<Rightarrow> jsnum
     \<Rightarrow> string list \<times> jsval list \<times> jsnum" where
  "filter_loop rt query columnMap startIndex =
     foldl (filter_step rt columnMap) ([], [], startIndex) query"

definition buildFilter ::
  "js_runtime \<Rightarrow> (string \<times> jsval) list \<Rightarrow> ColumnMap \<Rightarrow> jsnum \<Rightarrow> FilterResult" where
  "buildFilter rt query columnMap startIndex =
     (case filter_loop rt query columnMap startIndex of
        (whereClauses, ps, paramIndex) \<Rightarrow>
          if length whereClauses = 0 then
            \<lparr>whereClause = [], params = [], nextIndex = startIndex\<rparr>
          else
            \<lparr>whereClause = ''WHERE '' @ join '' AND '' whereClauses,
             params = ps, nextIndex = paramIndex\<rparr>)"

text \<open>The column map of the controller \<^verbatim>\<open>abioticoColuna.controller.ts\<close>.\<close>

definition abioticoColumnMap :: ColumnMap where
  "abioticoColumnMap = [(''idcampanha'', ''a.idcampanha''), (''idsitio'', ''a.idsitio'')]"

section \<open>ExportService\<close>

text \<open>
  An \<^verbatim>\<open>async\<close> function never throws to its caller: an exception raised while its body
  runs rejects the promise it returns. A settled promise is modelled by its outcome.
\<close>

datatype 'a promise = Fulfilled 'a | Rejected js_error

definition async :: "js_error + 'a \<Rightarrow> 'a promise" where
  "async r = (case r of Inl e \<Rightarrow> Rejected e | Inr v \<Rightarrow> Fulfilled v)"

text \<open>\<^verbatim>\<open>xs.map(f)\<close> where \<open>f\<close> may throw: the first exception ends the traversal.\<close>

fun traverse :: "('a \<Rightarrow> js_error + 'b) \<Rightarrow> 'a list \<Rightarrow> js_error + 'b list" where
  "traverse f [] = Inr []"
| "traverse f (x # xs) =
     (case f x of
        Inl e \<Rightarrow> Inl e
      | Inr y \<Rightarrow> (case traverse f xs of Inl e \<Rightarrow> Inl e | Inr ys \<Rightarrow> Inr (y # ys)))"

text \<open>
  \<^verbatim>\<open>Object.keys(v)\<close> and \<^verbatim>\<open>v[k]\<close> throw a \<^verbatim>\<open>TypeError\<close> on \<^verbatim>\<open>null\<close> and
  \<^verbatim>\<open>undefined\<close> (the messages are V8's).
\<close>

fun Object_keys :: "jsval \<Rightarrow> js_error + string list" where
  "Object_keys JNull = Inl (TypeError ''Cannot convert undefined or null to object'')"
| "Object_keys JUndefined = Inl (TypeError ''Cannot convert undefined or null to object'')"
| "Object_keys (JObj ps) = Inr (map fst ps)"
| "Object_keys (JStr s) = Inr (map show_nat [0..<length s])"
| "Object_keys v = Inr []"

fun read_prop :: "jsval \<Rightarrow> string \<Rightarrow> js_error + jsval" where
  "read_prop JNull k =
     Inl (TypeError (''Cannot read properties of null (reading '' @ [CHR 0x27] @ k @ [CHR 0x27] @ '')''))"
| "read_prop JUndefined k =
     Inl (TypeError (''Cannot read properties of undefined (reading '' @ [CHR 0x27] @ k @ [CHR 0x27] @ '')''))"
| "read_prop v k = Inr (get_prop v k)"

text \<open>\<^verbatim>\<open>str.includes(sub)\<close>: \<open>sub\<close> occurs in \<open>str\<close> as a contiguous substring.\<close>

fun str_includes :: "string \<Rightarrow> string \<Rightarrow> bool" where
  "str_includes [] sub = (sub = [])"
| "str_includes (c # s) sub = (take (length sub) (c # s) = sub \<or> str_includes s sub)"

definition dquote :: char where
  "dquote = CHR 0x22"

definition newline :: char where
  "newline = CHR 0x0A"

text \<open>\<^verbatim>\<open>str.replace(/"/g, '""')\<close>\<close>

definition double_quotes :: "string \<Rightarrow> string" where
  "double_quotes str = concat (map (\<lambda>c. if c = dquote then [dquote, dquote] else [c]) str)"

definition escapeCsvValue :: "js_runtime \<Rightarrow> jsval \<Rightarrow> string \<Rightarrow> string" where
  "escapeCsvValue rt v delimiter =
     (if v = JNull \<or> v = JUndefined then []
      else
        let str = js_String rt v;
            needsQuotes =
              (str_includes str delimiter \<or> str_includes str [dquote] \<or> str_includes str [newline])
        in if needsQuotes then [dquote] @ double_quotes str @ [dquote] else str)"

text \<open>
  The bytes of a buffer are written by \<^verbatim>\<open>Buffer.from\<close> and by the libraries iconv-lite
  and exceljs, none of them part of the repository. A buffer is represented by the text
  handed to the encoder together with the encoding asked for; nothing is said of its
  bytes, nor of what a decoder would read back from them.
\<close>

datatype buffer = Utf8 string | Latin1 string | Xlsx string

definition encodeBuffer :: "string \<Rightarrow> string \<Rightarrow> buffer" where
  "encodeBuffer content encoding =
     (if encoding = ''iso-8859-1'' then Latin1 content else Utf8 content)"

definition csv_body ::
  "js_runtime \<Rightarrow> jsval list \<Rightarrow> bool \<Rightarrow> string \<Rightarrow> string \<Rightarrow> js_error + buffer" where
  "csv_body rt data includeHeaders delimiter encoding =
     (if length data = 0 then
        (if includeHeaders then Inr (encodeBuffer ''Nenhum dado encontrado'' encoding)
         else Inr (encodeBuffer [] encoding))
      else
        case Object_keys (hd data) of
          Inl e \<Rightarrow> Inl e
        | Inr keys \<Rightarrow>
           (case traverse
                   (\<lambda>row. case traverse (\<lambda>key. case read_prop row key of
                                                     Inl e \<Rightarrow> Inl e
                                                   | Inr v \<Rightarrow> Inr (escapeCsvValue rt v delimiter)) keys of
                             Inl e \<Rightarrow> Inl e
                           | Inr values \<Rightarrow> Inr (join delimiter values))
                   data of
              Inl e \<Rightarrow> Inl e
            | Inr rows \<Rightarrow>
                let csvRows = (if includeHeaders then [join delimiter keys] else []) @ rows;
                    csvString = join [newline] csvRows
                in Inr (encodeBuffer csvString encoding)))"

definition generateCSV ::
  "js_runtime \<Rightarrow> jsval list \<Rightarrow> bool \<Rightarrow> string \<Rightarrow> string \<Rightarrow> buffer promise" where
  "generateCSV rt data includeHeaders delimiter encoding =
     async (csv_body rt data includeHeaders delimiter encoding)"

text \<open>
  \<^verbatim>\<open>generateXLSX\<close>. The worksheet is described by the rows added to it, each with the
  flag that marks the bold header row. Sizing the columns and serialising the workbook
  are the library's; they enter as the parameter \<open>writeBuffer\<close>, which may fail.
\<close>

definition xlsx_body ::
  "((bool \<times> jsval list) list \<Rightarrow> js_error + string) \<Rightarrow> jsval list \<Rightarrow> bool
     \<Rightarrow> js_error + buffer" where
  "xlsx_body writeBuffer data includeHeaders =
     (if length data = 0 then
        (case writeBuffer
                (if includeHeaders then [(False, [JStr ''Nenhum dado encontrado para exportar.''])]
                 else []) of
           Inl e \<Rightarrow> Inl e
         | Inr bytes \<Rightarrow> Inr (Xlsx bytes))
      else
        case Object_keys (hd data) of
          Inl e \<Rightarrow> Inl e
        | Inr keys \<Rightarrow>
           (case traverse (\<lambda>row. traverse (read_prop row) keys) data of
              Inl e \<Rightarrow> Inl e
            | Inr rows \<Rightarrow>
               (case writeBuffer
                       ((if includeHeaders then [(True, map JStr keys)] else [])
                          @ map (Pair False) rows) of
                  Inl e \<Rightarrow> Inl e
                | Inr bytes \<Rightarrow> Inr (Xlsx bytes))))"

definition generateXLSX ::
  "((bool \<times> jsval list) list \<Rightarrow> js_error + string) \<Rightarrow> jsval list \<Rightarrow> bool
     \<Rightarrow> buffer promise" where
  "generateXLSX writeBuffer data includeHeaders = async (xlsx_body writeBuffer data includeHeaders)"

record ExportFileOptions =
  format :: string
  encoding :: "string option"
  delimiter :: "string option"
  includeHeaders :: bool

text \<open>\<^verbatim>\<open>x || d\<close> on an optional string: the default replaces an absent or empty one.\<close>

definition or_default :: "string option \<Rightarrow> string \<Rightarrow> string" where
  "or_default x d = (case x of None \<Rightarrow> d | Some s \<Rightarrow> if s = [] then d else s)"

text \<open>
  \<^verbatim>\<open>generateExportFile\<close>. The \<^verbatim>\<open>try\<close> block evaluates \<^verbatim>\<open>options.format\<close>, which
  throws when \<open>options\<close> is \<^verbatim>\<open>undefined\<close> (\<open>None\<close>), calls one of the two generators and
  returns the promise the call gave, without awaiting it. So the block ends either with an
  exception of its own (\<open>Inl\<close>) or with that promise (\<open>Inr\<close>). The \<^verbatim>\<open>catch\<close> clause
  handles the exceptions of the block; a returned promise settles the promise of
  \<^verbatim>\<open>generateExportFile\<close> with its own outcome.
\<close>

definition export_try ::
  "js_runtime \<Rightarrow> ((bool \<times> jsval list) list \<Rightarrow> js_error + string) \<Rightarrow> jsval list
     \<Rightarrow> ExportFileOptions option \<Rightarrow> js_error + buffer promise" where
  "export_try rt writeBuffer data options =
     (case options of
        None \<Rightarrow>
          Inl (TypeError (''Cannot read properties of undefined (reading ''
                 @ [CHR 0x27] @ ''format'' @ [CHR 0x27] @ '')''))
      | Some opts \<Rightarrow>
          if format opts = ''xlsx'' then
            Inr (generateXLSX writeBuffer data (includeHeaders opts))
          else
            Inr (generateCSV rt data (includeHeaders opts)
                   (or_default (delimiter opts) '';'')
                   (or_default (encoding opts) ''utf-8'')))"

definition generateExportFile ::
  "js_runtime \<Rightarrow> ((bool \<times> jsval list) list \<Rightarrow> js_error + string) \<Rightarrow> jsval list
     \<Rightarrow> ExportFileOptions option \<Rightarrow> buffer promise" where
  "generateExportFile rt writeBuffer data options =
     (case export_try rt writeBuffer data options of
        Inl error \<Rightarrow> Rejected (Error ''Falha ao gerar o arquivo.'')
      | Inr p \<Rightarrow> p)"

subsection \<open>Reading a CSV text back\<close>

text \<open>
  The reader that the round-trip property speaks of, written from the property's words: the
  text is cut into rows at newlines and into fields at the delimiter; a field that opens
  with a double quote runs to its closing quote, with the surrounding quotes stripped and
  each doubled quote read as one; the first row names the columns of the rows after it.
  The field and the row under construction are kept in reverse.
\<close>

datatype scan_state = AtStart | InPlain | InQuoted | AfterQuote

fun scan :: "char \<Rightarrow> scan_state \<Rightarrow> string \<Rightarrow> string list \<Rightarrow> string \<Rightarrow> string list list" where
  "scan d st fld row [] = [rev (rev fld # row)]"
| "scan d st fld row (c # cs) =
     (if st = InQuoted then
        (if c = dquote then scan d AfterQuote fld row cs else scan d InQuoted (c # fld) row cs)
      else if c = d then scan d AtStart [] (rev fld # row) cs
      else if c = newline then rev (rev fld # row) # scan d AtStart [] [] cs
      else if c = dquote \<and> st = AtStart then scan d InQuoted fld row cs
      else if c = dquote \<and> st = AfterQuote then scan d InQuoted (c # fld) row cs
      else scan d InPlain (c # fld) row cs)"

definition spec_parse_csv :: "string \<Rightarrow> string \<Rightarrow> (string \<times> string) list list" where
  "spec_parse_csv delim text =
     (case delim of
        [d] \<Rightarrow> (case scan d AtStart [] [] text of
                  [] \<Rightarrow> []
                | header # rows \<Rightarrow> map (zip header) rows)
      | _ \<Rightarrow> [])"

text \<open>How a value reads in a CSV cell before quoting.\<close>

definition cell_text :: "js_runtime \<Rightarrow> jsval \<Rightarrow> string" where
  "cell_text rt v = (if v = JNull \<or> v = JUndefined then [] else js_String rt v)"

subsection \<open>Auxiliary notions for the round trip\<close>

text \<open>The value of an own property of a record, \<^verbatim>\<open>undefined\<close> when there is none.\<close>

definition own_value :: "(string \<times> jsval) list \<Rightarrow> string \<Rightarrow> jsval" where
  "own_value r k = (case map_of r k of Some v \<Rightarrow> v | None \<Rightarrow> JUndefined)"

text \<open>
  The quoting rule of \<^verbatim>\<open>escapeCsvValue\<close> for a one-character delimiter, on the text of
  a cell, and the line of a row of cells.
\<close>

definition quoted :: "char \<Rightarrow> string \<Rightarrow> string" where
  "quoted d f =
     (if d \<in> set f \<or> dquote \<in> set f \<or> newline \<in> set f then dquote # double_quotes f @ [dquote]
      else f)"

definition csv_line :: "char \<Rightarrow> string list \<Rightarrow> string" where
  "csv_line d fs = join [d] (map (quoted d) fs)"

text \<open>
  What the reader does when a field ends, at the end of the text, at a delimiter or at a
  newline, and the texts that end a field.
\<close>

fun field_end :: "char \<Rightarrow> string \<Rightarrow> string list \<Rightarrow> string \<Rightarrow> string list list" where
  "field_end d f row [] = [rev (f # row)]"
| "field_end d f row (c # cs) =
     (if c = d then scan d AtStart [] (f # row) cs else rev (f # row) # scan d AtStart [] [] cs)"

definition closes :: "char \<Rightarrow> string \<Rightarrow> bool" where
  "closes d rest = (case rest of [] \<Rightarrow> True | c # cs \<Rightarrow> c = d \<or> c = newline)"

section \<open>DataFormatterService\<close>

subsection \<open>Strings to numbers\<close>

text \<open>
  \<^verbatim>\<open>String.prototype.trim\<close> removes white space and line terminators from both ends;
  the code units below 256 among them are TAB, LF, VT, FF, CR, SP and NBSP.
\<close>

definition js_space :: "char \<Rightarrow> bool" where
  "js_space c = (of_char c \<in> set [9, 10, 11, 12, 13, 32, 160 :: nat])"

definition trim :: "string \<Rightarrow> string" where
  "trim s = rev (dropWhile js_space (rev (dropWhile js_space s)))"

text \<open>
  \<^verbatim>\<open>Number(s)\<close> on a string, after the grammar \<^verbatim>\<open>StringNumericLiteral\<close> of
  ECMA-262: optional white space around an optionally signed decimal literal (digits with
  an optional fraction and exponent, or \<^verbatim>\<open>Infinity\<close>) or an unsigned binary, octal or
  hexadecimal integer; the empty string is 0 and anything else is \<^verbatim>\<open>NaN\<close>. The result
  is the mathematical value of the literal rounded to binary64, as V8 computes it
  (ECMA-262 would also allow the digits after the twentieth to be read as zeros).
\<close>

definition starts_with :: "string \<Rightarrow> char \<Rightarrow> bool" where
  "starts_with s c = (s \<noteq> [] \<and> hd s = c)"

definition mantissa :: "string \<Rightarrow> (rat \<times> string) option" where
  "mantissa s =
     (let ip = takeWhile is_digit s; r = dropWhile is_digit s in
      if starts_with r (CHR ''.'') then
        (let fp = takeWhile is_digit (tl r); r3 = dropWhile is_digit (tl r) in
         if ip = [] \<and> fp = [] then None
         else Some (of_nat (digits_val ip) + of_nat (digits_val fp) / 10 ^ length fp, r3))
      else if ip = [] then None
      else Some (of_nat (digits_val ip), r))"

definition exponent_part :: "string \<Rightarrow> int option" where
  "exponent_part r =
     (if r = [] then Some 0
      else if hd r = CHR ''e'' \<or> hd r = CHR ''E'' then
        (let negative = starts_with (tl r) (CHR ''-'');
             ds = (if negative \<or> starts_with (tl r) (CHR ''+'') then tl (tl r) else tl r)
         in if ds \<noteq> [] \<and> list_all is_digit ds
            then Some (if negative then - int (digits_val ds) else int (digits_val ds))
            else None)
      else None)"

definition scale10 :: "rat \<Rightarrow> int \<Rightarrow> rat" where
  "scale10 m e = (if 0 \<le> e then m * 10 ^ nat e else m / 10 ^ nat (- e))"

definition unsigned_decimal :: "string \<Rightarrow> jsnum" where
  "unsigned_decimal s =
     (if s = ''Infinity'' then PInf
      else case mantissa s of
             None \<Rightarrow> NaN
           | Some (m, r) \<Rightarrow>
               (case exponent_part r of None \<Rightarrow> NaN | Some e \<Rightarrow> to_double (scale10 m e)))"

definition signed_decimal :: "string \<Rightarrow> jsnum" where
  "signed_decimal s =
     (if starts_with s (CHR ''-'') then negate (unsigned_decimal (tl s))
      else if starts_with s (CHR ''+'') then unsigned_decimal (tl s)
      else unsigned_decimal s)"

definition radix_digit :: "char \<Rightarrow> nat option" where
  "radix_digit c =
     (if is_digit c then Some (digit_val c)
      else if c \<in> set ''abcdef'' then Some (of_char c - 87)
      else if c \<in> set ''ABCDEF'' then Some (of_char c - 55)
      else None)"

definition radix_literal :: "nat \<Rightarrow> string \<Rightarrow> jsnum" where
  "radix_literal b ds =
     (if ds \<noteq> [] \<and> list_all (\<lambda>c. case radix_digit c of None \<Rightarrow> False | Some v \<Rightarrow> v < b) ds
      then to_double
             (of_nat (foldl (\<lambda>a c. b * a + (case radix_digit c of None \<Rightarrow> 0 | Some v \<Rightarrow> v)) 0 ds))
      else NaN)"

definition StringToNumber :: "string \<Rightarrow> jsnum" where
  "StringToNumber str =
     (let t = trim str in
      if t = [] then Fin 0
      else if take 2 t = ''0x'' \<or> take 2 t = ''0X'' then radix_literal 16 (drop 2 t)
      else if take 2 t = ''0o'' \<or> take 2 t = ''0O'' then radix_literal 8 (drop 2 t)
      else if take 2 t = ''0b'' \<or> take 2 t = ''0B'' then radix_literal 2 (drop 2 t)
      else signed_decimal t)"

text \<open>\<^verbatim>\<open>s.replace(/\./g, "")\<close> and \<^verbatim>\<open>s.replace(",", ".")\<close>, which replaces the first comma.\<close>

definition strip_dots :: "string \<Rightarrow> string" where
  "strip_dots s = filter (\<lambda>c. c \<noteq> CHR ''.'') s"

fun comma_to_dot :: "string \<Rightarrow> string" where
  "comma_to_dot [] = []"
| "comma_to_dot (c # s) = (if c = CHR '','' then CHR ''.'' # s else c # comma_to_dot s)"

definition number_or_null :: "jsnum \<Rightarrow> jsval" where
  "number_or_null num = (if num = NaN then JNull else JNum num)"

definition parseLocaleNumber :: "js_runtime \<Rightarrow> jsval \<Rightarrow> jsval" where
  "parseLocaleNumber rt v =
     (if v = JNull \<or> v = JUndefined then JNull
      else case v of
        JNum n \<Rightarrow> number_or_null n
      | _ \<Rightarrow>
         (let trimmed = trim (js_String rt v) in
          if trimmed = [] then JNull
          else if str_includes trimmed '','' then
            (let normalized = comma_to_dot (strip_dots trimmed) in
             number_or_null (StringToNumber normalized))
          else number_or_null (StringToNumber trimmed)))"

subsection \<open>Dates\<close>

text \<open>
  The time values and the calendar of ECMA-262 (section 21.4.1). A day number counts days
  from 1 January 1970; months count from 0.
\<close>

definition msPerDay :: int where
  "msPerDay = 86400000"

definition Day :: "int \<Rightarrow> int" where
  "Day t = t div msPerDay"

definition DaysInYear :: "int \<Rightarrow> int" where
  "DaysInYear y =
     (if y mod 4 \<noteq> 0 then 365 else if y mod 100 \<noteq> 0 then 366
      else if y mod 400 \<noteq> 0 then 365 else 366)"

definition DayFromYear :: "int \<Rightarrow> int" where
  "DayFromYear y = 365 * (y - 1970) + (y - 1969) div 4 - (y - 1901) div 100 + (y - 1601) div 400"

text \<open>
  \<^verbatim>\<open>YearFromTime\<close> is the largest year whose first day is not after the given day. It is
  found by searching upwards from a year that is not too large; the search ends because a
  year has at least 365 days.
\<close>

lemma div_succ:
  assumes "0 < (k::int)"
  shows "(a + 1) div k = a div k + (if (a + 1) mod k = 0 then 1 else 0)"
proof (cases "a mod k + 1 = k")
  case True
  have "a = k * (a div k) + a mod k" by simp
  then have "a + 1 = k * (a div k) + k" using True by linarith
  then have "a + 1 = k * (a div k + 1) + 0" by (simp add: algebra_simps)
  then have "(a + 1) div k = a div k + 1" "(a + 1) mod k = 0"
    using assms int_div_pos_eq [of "a + 1" k "a div k + 1" 0]
      int_mod_pos_eq [of "a + 1" k "a div k + 1" 0] by simp_all
  then show ?thesis by simp
next
  case False
  have m: "0 \<le> a mod k" "a mod k < k"
    using assms by simp_all
  have r: "0 \<le> a mod k + 1" "a mod k + 1 < k"
    using m False by linarith+
  have "a + 1 = k * (a div k) + (a mod k + 1)"
    using mult_div_mod_eq [of k a] by simp
  then have "(a + 1) div k = a div k" "(a + 1) mod k = a mod k + 1"
    using r int_div_pos_eq [of "a + 1" k "a div k" "a mod k + 1"]
      int_mod_pos_eq [of "a + 1" k "a div k" "a mod k + 1"] by simp_all
  then show ?thesis using m by simp
qed

lemma mod_shift:
  "((y::int) - 1968) mod 4 = y mod 4" "(y - 1900) mod 100 = y mod 100" "(y - 1600) mod 400 = y mod 400"
proof -
  have "(y - 1968) mod 4 = (y + 4 * (- 492)) mod 4" by simp
  then show "(y - 1968) mod 4 = y mod 4" by (simp only: mod_mult_self2)
  have "(y - 1900) mod 100 = (y + 100 * (- 19)) mod 100" by simp
  then show "(y - 1900) mod 100 = y mod 100" by (simp only: mod_mult_self2)
  have "(y - 1600) mod 400 = (y + 400 * (- 4)) mod 400" by simp
  then show "(y - 1600) mod 400 = y mod 400" by (simp only: mod_mult_self2)
qed

lemma leap_divisors:
  "(y::int) mod 100 = 0 \<Longrightarrow> y mod 4 = 0" "(y::int) mod 400 = 0 \<Longrightarrow> y mod 100 = 0"
proof -
  have "(4::int) dvd 100" "(100::int) dvd 400" by simp_all
  then show "y mod 100 = 0 \<Longrightarrow> y mod 4 = 0" "y mod 400 = 0 \<Longrightarrow> y mod 100 = 0"
    by (meson dvd_trans mod_eq_0_iff_dvd)+
qed

lemma DayFromYear_Suc: "DayFromYear (y + 1) = DayFromYear y + DaysInYear y"
proof -
  have a: "(y + 1 - 1969) div 4 = (y - 1969) div 4 + (if y mod 4 = 0 then 1 else 0)"
    using div_succ [of 4 "y - 1969"] mod_shift(1) [of y] by simp
  have b: "(y + 1 - 1901) div 100 = (y - 1901) div 100 + (if y mod 100 = 0 then 1 else 0)"
    using div_succ [of 100 "y - 1901"] mod_shift(2) [of y] by simp
  have c: "(y + 1 - 1601) div 400 = (y - 1601) div 400 + (if y mod 400 = 0 then 1 else 0)"
    using div_succ [of 400 "y - 1601"] mod_shift(3) [of y] by simp
  show ?thesis
    unfolding DayFromYear_def DaysInYear_def a b c
    using leap_divisors [of y] by auto
qed


lemma DaysInYear_bounds: "365 \<le> DaysInYear y" "DaysInYear y \<le> 366"
  by (simp_all add: DaysInYear_def)

function year_search :: "int \<Rightarrow> int \<Rightarrow> int" where
  "year_search n y = (if DayFromYear (y + 1) \<le> n then year_search n (y + 1) else y)"
  by pat_completeness auto
termination
proof (relation "measure (\<lambda>(n, y). nat (n - DayFromYear y))")
  show "wf (measure (\<lambda>(n, y). nat (n - DayFromYear y)))" by simp
next
  fix n y :: int
  assume "DayFromYear (y + 1) \<le> n"
  then show "((n, y + 1), (n, y)) \<in> measure (\<lambda>(n, y). nat (n - DayFromYear y))"
    using DayFromYear_Suc [of y] DaysInYear_bounds(1) [of y] by simp
qed

declare year_search.simps [simp del]

definition YearFromDay :: "int \<Rightarrow> int" where
  "YearFromDay n = year_search n (1970 + (if 0 \<le> n then n div 366 else n div 365))"

definition InLeapYear :: "int \<Rightarrow> bool" where
  "InLeapYear y = (DaysInYear y = 366)"

text \<open>The day within its year on which month \<open>m\<close> (from 0) starts.\<close>

definition month_start :: "int \<Rightarrow> bool \<Rightarrow> int" where
  "month_start m leap =
     (if m \<le> 0 then 0 else if m = 1 then 31
      else (if m = 2 then 59 else if m = 3 then 90 else if m = 4 then 120
            else if m = 5 then 151 else if m = 6 then 181 else if m = 7 then 212
            else if m = 8 then 243 else if m = 9 then 273 else if m = 10 then 304
            else 334) + (if leap then 1 else 0))"

definition DayWithinYear :: "int \<Rightarrow> int" where
  "DayWithinYear n = n - DayFromYear (YearFromDay n)"

definition MonthFromDay :: "int \<Rightarrow> int" where
  "MonthFromDay n =
     (let dy = DayWithinYear n; leap = InLeapYear (YearFromDay n) in
      if dy < month_start 1 leap then 0 else if dy < month_start 2 leap then 1
      else if dy < month_start 3 leap then 2 else if dy < month_start 4 leap then 3
      else if dy < month_start 5 leap then 4 else if dy < month_start 6 leap then 5
      else if dy < month_start 7 leap then 6 else if dy < month_start 8 leap then 7
      else if dy < month_start 9 leap then 8 else if dy < month_start 10 leap then 9
      else if dy < month_start 11 leap then 10 else 11)"

definition DateFromDay :: "int \<Rightarrow> int" where
  "DateFromDay n =
     DayWithinYear n - month_start (MonthFromDay n) (InLeapYear (YearFromDay n)) + 1"

definition MakeDay :: "int \<Rightarrow> int \<Rightarrow> int \<Rightarrow> int" where
  "MakeDay year month date =
     (let ym = year + month div 12; mn = month mod 12 in
      DayFromYear ym + month_start mn (InLeapYear ym) + date - 1)"

definition TimeClip :: "int \<Rightarrow> int option" where
  "TimeClip t = (if \<bar>t\<bar> > 8640000000000000 then None else Some t)"

text \<open>
  \<^verbatim>\<open>Date.UTC(y, m, d)\<close> on integers: a year from 0 to 99 stands for 1900 plus that
  year. The getters read a time value.
\<close>

definition Date_UTC :: "int \<Rightarrow> int \<Rightarrow> int \<Rightarrow> int option" where
  "Date_UTC y m d =
     TimeClip (MakeDay (if 0 \<le> y \<and> y \<le> 99 then 1900 + y else y) m d * msPerDay)"

definition getUTCFullYear :: "int \<Rightarrow> int" where
  "getUTCFullYear t = YearFromDay (Day t)"

definition getUTCMonth :: "int \<Rightarrow> int" where
  "getUTCMonth t = MonthFromDay (Day t)"

definition getUTCDate :: "int \<Rightarrow> int" where
  "getUTCDate t = DateFromDay (Day t)"

definition pad :: "nat \<Rightarrow> nat \<Rightarrow> string" where
  "pad w n = replicate (w - length (show_nat n)) (CHR ''0'') @ show_nat n"

definition iso_year :: "int \<Rightarrow> string" where
  "iso_year y =
     (if 0 \<le> y \<and> y \<le> 9999 then pad 4 (nat y)
      else (if y < 0 then ''-'' else ''+'') @ pad 6 (nat \<bar>y\<bar>))"

definition toISOString :: "int \<Rightarrow> string" where
  "toISOString t =
     iso_year (getUTCFullYear t) @ ''-'' @ pad 2 (nat (getUTCMonth t + 1)) @ ''-''
       @ pad 2 (nat (getUTCDate t)) @ ''T'' @ pad 2 (nat ((t div 3600000) mod 24)) @ '':''
       @ pad 2 (nat ((t div 60000) mod 60)) @ '':'' @ pad 2 (nat ((t div 1000) mod 60)) @ ''.''
       @ pad 3 (nat (t mod 1000)) @ ''Z''"

text \<open>
  \<^verbatim>\<open>buildISODate(y, m, d)\<close>. Its callers pass \<^verbatim>\<open>Number\<close> of a captured run of digits,
  so the arguments are integers. The \<^verbatim>\<open>try\<close> around the body has nothing to catch:
  \<^verbatim>\<open>toISOString\<close> is only reached with a valid time value. An invalid date from
  \<^verbatim>\<open>Date.UTC\<close> has \<^verbatim>\<open>NaN\<close> getters, which the comparison rejects.
\<close>

definition buildISODate :: "int \<Rightarrow> int \<Rightarrow> int \<Rightarrow> string option" where
  "buildISODate y m d =
     (if m < 1 \<or> m > 12 \<or> d < 1 \<or> d > 31 \<or> y < 1900 \<or> y > 3000 then None
      else case Date_UTC y (m - 1) d of
             None \<Rightarrow> None
           | Some date \<Rightarrow>
               if getUTCFullYear date = y \<and> getUTCMonth date = m - 1 \<and> getUTCDate date = d
               then Some (take 10 (toISOString date))
               else None)"

text \<open>
  The three patterns. \<^verbatim>\<open>/^(\d{4})-(\d{2})-(\d{2})/\<close> looks at the first ten code units.
  \<^verbatim>\<open>/^(\d{1,2})c(\d{1,2})c(\d{4})$/\<close>, with \<open>c\<close> a separator that is not a digit, holds
  when the leading run of digits has one or two members and is followed by \<open>c\<close>, the same
  holds of what follows, and the rest is exactly four digits. Each yields its three
  captures in the order of the pattern.
\<close>

definition matchISO :: "string \<Rightarrow> (string \<times> string \<times> string) option" where
  "matchISO s =
     (if 10 \<le> length s \<and> list_all is_digit (take 4 s) \<and> s ! 4 = CHR ''-''
         \<and> list_all is_digit (take 2 (drop 5 s)) \<and> s ! 7 = CHR ''-''
         \<and> list_all is_digit (take 2 (drop 8 s))
      then Some (take 4 s, take 2 (drop 5 s), take 2 (drop 8 s))
      else None)"

definition match_sep :: "char \<Rightarrow> string \<Rightarrow> (string \<times> string \<times> string) option" where
  "match_sep c s =
     (let a = takeWhile is_digit s; r1 = dropWhile is_digit s in
      if (length a = 1 \<or> length a = 2) \<and> starts_with r1 c then
        (let b = takeWhile is_digit (tl r1); r2 = dropWhile is_digit (tl r1) in
         if (length b = 1 \<or> length b = 2) \<and> starts_with r2 c
            \<and> length (tl r2) = 4 \<and> list_all is_digit (tl r2)
         then Some (a, b, tl r2)
         else None)
      else None)"

definition num :: "string \<Rightarrow> int" where
  "num ds = int (digits_val ds)"

text \<open>
  \<^verbatim>\<open>new Date(Date.UTC(t.getUTCFullYear(), t.getUTCMonth(), t.getUTCDate())).toISOString().slice(0, 10)\<close>
  for a valid time value \<open>t\<close>; \<^verbatim>\<open>toISOString\<close> throws on an invalid date.
\<close>

definition utc_date_string :: "int \<Rightarrow> js_error + string" where
  "utc_date_string t =
     (case Date_UTC (getUTCFullYear t) (getUTCMonth t) (getUTCDate t) of
        None \<Rightarrow> Inl (RangeError ''Invalid time value'')
      | Some t' \<Rightarrow> Inr (take 10 (toISOString t')))"

text \<open>
  \<^verbatim>\<open>normalizeDate\<close> on a string: the branches 2a to 2d of the source. In the last one the
  engine's parse of the text is the runtime's \<open>date_parse\<close>, and an exception is swallowed
  by the \<^verbatim>\<open>catch\<close>. The warnings written to the logger are not modelled.
\<close>

definition normalize_string :: "js_runtime \<Rightarrow> string \<Rightarrow> string option" where
  "normalize_string rt s =
     (let trimmed = trim s in
      if trimmed = [] then None
      else case matchISO trimmed of
        Some (y, m, d) \<Rightarrow> buildISODate (num y) (num m) (num d)
      | None \<Rightarrow>
         (case match_sep (CHR ''/'') trimmed of
            Some (d, m, y) \<Rightarrow> buildISODate (num y) (num m) (num d)
          | None \<Rightarrow>
             (case match_sep (CHR ''-'') trimmed of
                Some (m, d, y) \<Rightarrow> buildISODate (num y) (num m) (num d)
              | None \<Rightarrow>
                 (case date_parse rt trimmed of
                    None \<Rightarrow> None
                  | Some t \<Rightarrow> (case utc_date_string t of Inl e \<Rightarrow> None | Inr ymd \<Rightarrow> Some ymd)))))"

text \<open>
  \<^verbatim>\<open>normalizeDate(value)\<close> on any value: a falsy value gives \<^verbatim>\<open>null\<close> (\<open>None\<close>); a
  Date goes through its UTC components; a string through the patterns; any other value
  has no \<^verbatim>\<open>trim\<close> method, and calling it throws.
\<close>

definition normalizeDate :: "js_runtime \<Rightarrow> jsval \<Rightarrow> js_error + string option" where
  "normalizeDate rt v =
     (if \<not> truthy v then Inr None
      else case v of
        JDate tv \<Rightarrow>
          (case tv of
             None \<Rightarrow> Inr None
           | Some t \<Rightarrow> (case utc_date_string t of Inl e \<Rightarrow> Inl e | Inr ymd \<Rightarrow> Inr (Some ymd)))
      | JStr s \<Rightarrow> Inr (normalize_string rt s)
      | _ \<Rightarrow> Inl (TypeError ''value.trim is not a function''))"

subsection \<open>Output records\<close>

definition string_or_null :: "string option \<Rightarrow> jsval" where
  "string_or_null x = (case x of None \<Rightarrow> JNull | Some s \<Rightarrow> JStr s)"

text \<open>
  \<^verbatim>\<open>formatListOutput(row)\<close> and \<^verbatim>\<open>formatDetailOutput(row)\<close>. An object literal creates
  every property it lists, in order, also when the value is \<^verbatim>\<open>undefined\<close>. Only
  \<^verbatim>\<open>normalizeDate\<close> can throw.
\<close>

definition formatListOutput :: "js_runtime \<Rightarrow> jsval \<Rightarrow> js_error + jsval" where
  "formatListOutput rt row =
     (if \<not> truthy row then Inr JNull
      else case normalizeDate rt (get_prop row ''datamedida'') of
        Inl e \<Rightarrow> Inl e
      | Inr datamedida \<Rightarrow>
          Inr (JObj
            [(''idabioticocoluna'', get_prop row ''idabioticocoluna''),
             (''datamedida'', string_or_null datamedida),
             (''horamedida'', get_prop row ''horamedida''),
             (''profundidade'', parseLocaleNumber rt (get_prop row ''profundidade'')),
             (''dic'', parseLocaleNumber rt (get_prop row ''dic'')),
             (''nt'', parseLocaleNumber rt (get_prop row ''nt'')),
             (''pt'', parseLocaleNumber rt (get_prop row ''pt'')),
             (''delta13c'', parseLocaleNumber rt (get_prop row ''delta13c'')),
             (''delta15n'', parseLocaleNumber rt (get_prop row ''delta15n'')),
             (''sitio'',
                if truthy (get_prop row ''idsitio'') then get_prop row ''sitio_nome''
                else JUndefined),
             (''campanha'',
                if truthy (get_prop row ''idcampanha'') then get_prop row ''nrocampanha''
                else JUndefined)]))"

definition campanha_detail :: "js_runtime \<Rightarrow> jsval \<Rightarrow> js_error + jsval" where
  "campanha_detail rt row =
     (if truthy (get_prop row ''idcampanha'') then
        (case normalizeDate rt (get_prop row ''campanha_datainicio'') of
           Inl e \<Rightarrow> Inl e
         | Inr dataInicio \<Rightarrow>
            (case normalizeDate rt (get_prop row ''campanha_datafim'') of
               Inl e \<Rightarrow> Inl e
             | Inr dataFim \<Rightarrow>
                 Inr (JObj
                   [(''idcampanha'', get_prop row ''idcampanha''),
                    (''nroCampanha'', get_prop row ''nrocampanha''),
                    (''dataInicio'', string_or_null dataInicio),
                    (''dataFim'', string_or_null dataFim),
                    (''reservatorio'',
                       if truthy (get_prop row ''idreservatorio'') then
                         JObj [(''idreservatorio'', get_prop row ''idreservatorio''),
                               (''nome'', get_prop row ''reservatorio_nome'')]
                       else JUndefined)])))
      else Inr JUndefined)"

definition formatDetailOutput :: "js_runtime \<Rightarrow> jsval \<Rightarrow> js_error + jsval" where
  "formatDetailOutput rt row =
     (if \<not> truthy row then Inr JNull
      else case normalizeDate rt (get_prop row ''datamedida'') of
        Inl e \<Rightarrow> Inl e
      | Inr datamedida \<Rightarrow>
         (case campanha_detail rt row of
            Inl e \<Rightarrow> Inl e
          | Inr campanha \<Rightarrow>
              Inr (JObj
                [(''idabioticocoluna'', get_prop row ''idabioticocoluna''),
                 (''datamedida'', string_or_null datamedida),
                 (''horamedida'', get_prop row ''horamedida''),
                 (''profundidade'', parseLocaleNumber rt (get_prop row ''profundidade'')),
                 (''dic'', parseLocaleNumber rt (get_prop row ''dic'')),
                 (''nt'', parseLocaleNumber rt (get_prop row ''nt'')),
                 (''pt'', parseLocaleNumber rt (get_prop row ''pt'')),
                 (''delta13c'', parseLocaleNumber rt (get_prop row ''delta13c'')),
                 (''delta15n'', parseLocaleNumber rt (get_prop row ''delta15n'')),
                 (''sitio'',
                    if truthy (get_prop row ''idsitio'') then
                      JObj [(''idsitio'', get_prop row ''idsitio''),
                            (''nome'', get_prop row ''sitio_nome''),
                            (''lat'', parseLocaleNumber rt (get_prop row ''sitio_lat'')),
                            (''lng'', parseLocaleNumber rt (get_prop row ''sitio_lng'')),
                            (''descricao'', get_prop row ''sitio_descricao'')]
                    else JUndefined),
                 (''campanha'', campanha)])))"

text \<open>
  What \<^verbatim>\<open>JSON.stringify\<close> keeps of an object: it leaves out the properties whose value is
  \<^verbatim>\<open>undefined\<close> or a function.
\<close>

fun json_omits :: "jsval \<Rightarrow> bool" where
  "json_omits JUndefined = True"
| "json_omits (JNative f) = True"
| "json_omits v = False"

definition json_fields :: "(string \<times> jsval) list \<Rightarrow> (string \<times> jsval) list" where
  "json_fields ps = filter (\<lambda>kv. \<not> json_omits (snd kv)) ps"

subsection \<open>Notions used in the statements\<close>

text \<open>
  The reading of a decimal comma in the words of the specification: the dots are thousands
  separators and are stripped, and the comma is replaced with a dot.
\<close>

definition spec_decimal_comma :: "string \<Rightarrow> string" where
  "spec_decimal_comma t = map (\<lambda>c. if c = CHR '','' then CHR ''.'' else c) (strip_dots t)"

text \<open>
  A rational that is a binary64 number, and a start index \<open>r\<close> from which \<open>n\<close> steps of 1
  stay within the binary64 numbers: \<open>r\<close>, \<open>r + 1\<close>, ..., \<open>r + n\<close> are all representable.
\<close>

definition representable :: "rat \<Rightarrow> bool" where
  "representable r = (to_double r = Fin r)"

definition exact_indices :: "rat \<Rightarrow> nat \<Rightarrow> bool" where
  "exact_indices r n = list_all (\<lambda>i. representable (r + of_nat i)) [0..<Suc n]"

text \<open>The property names of a list record and of a nested campaign record, in order.\<close>

definition list_keys :: "string list" where
  "list_keys = [''idabioticocoluna'', ''datamedida'', ''horamedida'', ''profundidade'', ''dic'',
     ''nt'', ''pt'', ''delta13c'', ''delta15n'', ''sitio'', ''campanha'']"

definition campanha_keys :: "string list" where
  "campanha_keys = [''idcampanha'', ''nroCampanha'', ''dataInicio'', ''dataFim'', ''reservatorio'']"

text \<open>
  The calendar in its usual words: leap years, the length of a month (from 1), and the
  triples of year, month and day that are dates of the calendar.
\<close>

definition leap_year :: "int \<Rightarrow> bool" where
  "leap_year y = (y mod 4 = 0 \<and> (y mod 100 \<noteq> 0 \<or> y mod 400 = 0))"

definition days_in_month :: "int \<Rightarrow> int \<Rightarrow> int" where
  "days_in_month y m =
     (if m = 2 then (if leap_year y then 29 else 28)
      else if m = 4 \<or> m = 6 \<or> m = 9 \<or> m = 11 then 30 else 31)"

definition real_date :: "int \<Rightarrow> int \<Rightarrow> int \<Rightarrow> bool" where
  "real_date y m d = (1 \<le> m \<and> m \<le> 12 \<and> 1 \<le> d \<and> d \<le> days_in_month y m)"

text \<open>
  The check of \<^verbatim>\<open>buildISODate\<close>: the date that \<^verbatim>\<open>Date.UTC\<close> builds from a year, a month
  and a day has these as its UTC year, month and day.
\<close>

definition reconstructs :: "int \<Rightarrow> int \<Rightarrow> int \<Rightarrow> bool" where
  "reconstructs y m d =
     (case Date_UTC y (m - 1) d of
        None \<Rightarrow> False
      | Some date \<Rightarrow> getUTCFullYear date = y \<and> getUTCMonth date = m - 1 \<and> getUTCDate date = d)"

text \<open>The first ten code units of the ISO string of a valid time value at midnight UTC.\<close>

definition day_text :: "string \<Rightarrow> bool" where
  "day_text s = (\<exists>n. TimeClip (n * msPerDay) = Some (n * msPerDay)
                    \<and> s = take 10 (toISOString (n * msPerDay)))"

section \<open>Properties of the rounding\<close>

lemma bit_length_bounds:
  "0 < n \<Longrightarrow> 2 ^ (bit_length n - 1) \<le> n \<and> n < 2 ^ bit_length n"
proof (induction n rule: bit_length.induct)
  case (1 n)
  show ?case
  proof (cases "n div 2 = 0")
    case True
    then have "n = 1" using "1.prems" by auto
    then show ?thesis by (simp add: bit_length.simps)
  next
    case False
    then have ih: "2 ^ (bit_length (n div 2) - 1) \<le> n div 2" "n div 2 < 2 ^ bit_length (n div 2)"
      using "1.IH" "1.prems" by auto
    have pos: "0 < bit_length (n div 2)"
      using False by (subst bit_length.simps) simp
    have bl: "bit_length n = Suc (bit_length (n div 2))"
      using "1.prems" by (subst bit_length.simps) simp
    have "2 ^ (bit_length n - 1) = 2 * 2 ^ (bit_length (n div 2) - 1)"
      using pos bl by (cases "bit_length (n div 2)") simp_all
    also have "\<dots> \<le> 2 * (n div 2)" using ih(1) by simp
    also have "\<dots> \<le> n" by simp
    finally have lo: "2 ^ (bit_length n - 1) \<le> n" .
    have "n < 2 * (n div 2) + 2" by presburger
    also have "\<dots> \<le> 2 * 2 ^ bit_length (n div 2)" using ih(2) by simp
    finally have "n < 2 ^ bit_length n" by (simp add: bl)
    with lo show ?thesis by simp
  qed
qed

lemma ilog2_bounds:
  assumes "0 < x"
  shows "2 powi (ilog2 x) \<le> x" "x < 2 powi (ilog2 x + 1)"
proof -
  have "2 powi (ilog2 x) \<le> x \<and> x < 2 powi (ilog2 x + 1)"
  proof (cases "1 \<le> x")
    case True
    let ?n = "nat \<lfloor>x\<rfloor>"
    have n: "0 < ?n" using True by simp
    have k: "0 < bit_length ?n" using n by (subst bit_length.simps) simp
    have e: "ilog2 x = int (bit_length ?n - 1)" using True k by (simp add: ilog2_def)
    have b: "2 ^ (bit_length ?n - 1) \<le> ?n" "?n < 2 ^ bit_length ?n"
      using bit_length_bounds [OF n] by simp_all
    have nx: "(of_nat ?n :: rat) \<le> x"
    proof -
      have "int ?n = \<lfloor>x\<rfloor>" using True by simp
      then have "(of_int (int ?n) :: rat) = of_int \<lfloor>x\<rfloor>" by (rule arg_cong)
      then have "(of_nat ?n :: rat) = of_int \<lfloor>x\<rfloor>" by (simp only: of_int_of_nat_eq)
      then show ?thesis by linarith
    qed
    have "(of_nat (2 ^ (bit_length ?n - 1)) :: rat) \<le> of_nat ?n"
      using b(1) by (simp only: of_nat_le_iff)
    then have "(2::rat) ^ (bit_length ?n - 1) \<le> of_nat ?n"
      by (simp only: of_nat_power of_nat_numeral)
    then have "(2::rat) ^ (bit_length ?n - 1) \<le> x" using nx by linarith
    then have lo: "2 powi (ilog2 x) \<le> x" by (simp only: e power_int_of_nat)
    have "Suc ?n \<le> 2 ^ bit_length ?n" using b(2) by (rule Suc_leI)
    then have "(of_nat (Suc ?n) :: rat) \<le> of_nat (2 ^ bit_length ?n)"
      by (simp only: of_nat_le_iff)
    then have up: "(of_nat (Suc ?n) :: rat) \<le> 2 ^ bit_length ?n"
      by (simp only: of_nat_power of_nat_numeral)
    have "x < of_nat (Suc ?n)"
    proof -
      have "int ?n = \<lfloor>x\<rfloor>" using True by simp
      then have "(of_int (int ?n) :: rat) = of_int \<lfloor>x\<rfloor>" by (rule arg_cong)
      then have "(of_nat (Suc ?n) :: rat) = of_int \<lfloor>x\<rfloor> + 1"
        by (simp only: of_int_of_nat_eq of_nat_Suc add.commute)
      then show ?thesis by linarith
    qed
    then have "x < 2 ^ bit_length ?n" using up by linarith
    moreover have "ilog2 x + 1 = int (bit_length ?n)" using e k by simp
    ultimately have "x < 2 powi (ilog2 x + 1)" by (simp only: power_int_of_nat)
    with lo show ?thesis by simp
  next
    case False
    let ?y = "1 / x"
    let ?n = "nat (\<lceil>?y\<rceil> - 1)"
    have y: "1 < ?y" using False assms by simp
    then have c: "2 \<le> \<lceil>?y\<rceil>" by linarith
    then have n: "0 < ?n" by simp
    have e: "ilog2 x = - int (bit_length ?n)" using False by (simp add: ilog2_def)
    have b: "2 ^ (bit_length ?n - 1) \<le> ?n" "?n < 2 ^ bit_length ?n"
      using bit_length_bounds [OF n] by simp_all
    have k: "0 < bit_length ?n" using n by (subst bit_length.simps) simp
    have ny: "(of_nat ?n :: rat) < ?y" "?y \<le> of_nat (Suc ?n)"
    proof -
      have "int ?n = \<lceil>?y\<rceil> - 1" using c by linarith
      then have "(of_int (int ?n) :: rat) = of_int (\<lceil>?y\<rceil> - 1)" by (rule arg_cong)
      then have q: "(of_nat ?n :: rat) = of_int \<lceil>?y\<rceil> - 1"
        by (simp only: of_int_of_nat_eq of_int_diff of_int_1)
      then show "(of_nat ?n :: rat) < ?y" by linarith
      have "(of_nat (Suc ?n) :: rat) = of_nat ?n + 1" by (simp only: of_nat_Suc add.commute)
      then have "(of_nat (Suc ?n) :: rat) = of_int \<lceil>?y\<rceil>" using q by linarith
      then show "?y \<le> of_nat (Suc ?n)" by linarith
    qed
    have "Suc ?n \<le> 2 ^ bit_length ?n" using b(2) by (rule Suc_leI)
    then have "(of_nat (Suc ?n) :: rat) \<le> of_nat (2 ^ bit_length ?n)"
      by (simp only: of_nat_le_iff)
    then have "(of_nat (Suc ?n) :: rat) \<le> 2 ^ bit_length ?n"
      by (simp only: of_nat_power of_nat_numeral)
    then have "?y \<le> 2 ^ bit_length ?n" using ny(2) by linarith
    then have "1 \<le> x * 2 ^ bit_length ?n"
      using assms by (simp add: field_simps)
    then have lo: "2 powi (ilog2 x) \<le> x"
      by (simp add: e power_int_minus field_simps)
    have "(of_nat (2 ^ (bit_length ?n - 1)) :: rat) \<le> of_nat ?n"
      using b(1) by (simp only: of_nat_le_iff)
    then have "(2::rat) ^ (bit_length ?n - 1) \<le> of_nat ?n"
      by (simp only: of_nat_power of_nat_numeral)
    then have "2 ^ (bit_length ?n - 1) < ?y" using ny(1) by linarith
    then have "x * 2 ^ (bit_length ?n - 1) < 1"
      using assms by (simp add: field_simps)
    moreover have "ilog2 x + 1 = - int (bit_length ?n - 1)" using e k by simp
    ultimately have "x < 2 powi (ilog2 x + 1)"
      by (simp add: power_int_minus field_simps)
    with lo show ?thesis by simp
  qed
  then show "2 powi (ilog2 x) \<le> x" "x < 2 powi (ilog2 x + 1)" by simp_all
qed

lemma ilog2_unique:
  assumes "0 < x" and "2 powi e \<le> x" and "x < 2 powi (e + 1)"
  shows "ilog2 x = e"
proof (rule ccontr)
  assume ne: "ilog2 x \<noteq> e"
  have b: "2 powi (ilog2 x) \<le> x" "x < 2 powi (ilog2 x + 1)"
    using ilog2_bounds [OF assms(1)] .
  show False
  proof (cases "ilog2 x < e")
    case True
    then have "(2::rat) powi (ilog2 x + 1) \<le> 2 powi e"
      by (intro power_int_increasing) simp_all
    then show False using b(2) assms(2) by linarith
  next
    case False
    then have "e + 1 \<le> ilog2 x" using ne by simp
    then have "(2::rat) powi (e + 1) \<le> 2 powi (ilog2 x)"
      by (intro power_int_increasing) simp_all
    then show False using b(1) assms(3) by linarith
  qed
qed


lemma pow2_less_iff: "(2::rat) powi m < 2 powi n \<longleftrightarrow> m < n"
proof
  assume l: "(2::rat) powi m < 2 powi n"
  show "m < n"
  proof (rule ccontr)
    assume "\<not> m < n"
    then have "n \<le> m" by simp
    then have "(2::rat) powi n \<le> 2 powi m" by (intro power_int_increasing) simp_all
    then show False using l by linarith
  qed
next
  assume "m < n"
  then show "(2::rat) powi m < 2 powi n" by (intro power_int_strict_increasing) simp_all
qed

lemma pow2_le_iff: "(2::rat) powi m \<le> 2 powi n \<longleftrightarrow> m \<le> n"
proof
  assume l: "(2::rat) powi m \<le> 2 powi n"
  show "m \<le> n"
  proof (rule ccontr)
    assume "\<not> m \<le> n"
    then have "n < m" by simp
    then have "(2::rat) powi n < 2 powi m" by (intro power_int_strict_increasing) simp_all
    then show False using l by linarith
  qed
next
  assume "m \<le> n"
  then show "(2::rat) powi m \<le> 2 powi n" by (intro power_int_increasing) simp_all
qed

lemma round_half_even_of_int: "round_half_even (of_int j) = j"
  by (simp add: round_half_even_def)

lemma to_double_normal:
  assumes "0 < a" and "2 powi e \<le> a" and "a < 2 powi (e + 1)" and "- 1022 \<le> e"
  shows "to_double a =
     (if (2::rat) ^ 1024 \<le> of_int (round_half_even (a / 2 powi (e - 52))) * 2 powi (e - 52) then PInf
      else Fin (of_int (round_half_even (a / 2 powi (e - 52))) * 2 powi (e - 52)))"
proof -
  have "ilog2 a = e" using assms(1-3) by (rule ilog2_unique)
  then have "max (ilog2 \<bar>a\<bar>) (- 1022) = e" using assms(1,4) by simp
  then show ?thesis using assms(1) by (simp add: to_double_def Let_def)
qed

lemma to_double_minus: "to_double (- x) = negate (to_double x)"
  by (simp add: to_double_def negate_def Let_def)

lemma to_double_of_int:
  assumes "\<bar>k\<bar> \<le> 2 ^ 53"
  shows "to_double (of_int k) = Fin (of_int k)"
proof -
  have pos: "to_double (of_int j) = Fin (of_int j)" if j: "0 < j" "j \<le> 2 ^ 53" for j :: int
  proof -
    let ?a = "of_int j :: rat"
    define e where "e = ilog2 ?a"
    have a: "0 < ?a" "1 \<le> ?a" "?a \<le> 2 ^ 53" using j by simp_all
    have b: "2 powi e \<le> ?a" "?a < 2 powi (e + 1)"
      unfolding e_def using ilog2_bounds [OF a(1)] by simp_all
    have "(2::rat) powi 0 < 2 powi (e + 1)" using a(2) b(2) by simp
    then have "0 < e + 1" by (rule pow2_less_iff [THEN iffD1])
    then have e0: "0 \<le> e" by simp
    have "(2::rat) powi e \<le> 2 powi 53" using b(1) a(3) by simp
    then have e53: "e \<le> 53" by (rule pow2_le_iff [THEN iffD1])
    let ?u = "(2::rat) powi (e - 52)"
    have u: "0 < ?u" by (simp add: power_int_def)
    have "\<exists>i. ?a / ?u = of_int i"
    proof (cases "e = 53")
      case True
      then have "?a = 2 ^ 53" using b(1) a(3) by simp
      then have "?a / ?u = of_int (2 ^ 52)" using True by simp
      then show ?thesis ..
    next
      case False
      then have "e \<le> 52" using e53 by simp
      then have "e - 52 = - int (nat (52 - e))" by simp
      then have "?u = inverse (2 ^ nat (52 - e))"
        by (simp only: power_int_minus power_int_of_nat)
      then have "?a / ?u = of_int (j * 2 ^ nat (52 - e))" by (simp add: field_simps)
      then show ?thesis ..
    qed
    then obtain i where i: "?a / ?u = of_int i" ..
    have r: "of_int (round_half_even (?a / ?u)) * ?u = ?a"
      using u by (simp only: i round_half_even_of_int) (simp add: i [symmetric])
    have "\<not> (2::rat) ^ 1024 \<le> ?a"
    proof -
      have "(2::rat) ^ 53 < 2 ^ 1024" by simp
      then show ?thesis using a(3) by linarith
    qed
    then show ?thesis
      using to_double_normal [OF a(1) b] e0 by (simp only: r) simp
  qed
  consider "k = 0" | "0 < k" | "0 < - k" by linarith
  then show ?thesis
  proof cases
    case 1
    then show ?thesis by (simp add: to_double_def)
  next
    case 2
    then show ?thesis using pos [of k] assms by simp
  next
    case 3
    then have "to_double (of_int (- k)) = Fin (of_int (- k))" using pos [of "- k"] assms by simp
    then have "to_double (- of_int k) = Fin (- of_int k)" by simp
    then have "negate (to_double (of_int k)) = Fin (- of_int k)" by (simp only: to_double_minus)
    then show ?thesis by (cases "to_double (of_int k)") (simp_all add: negate_def)
  qed
qed

lemma to_double_overflow:
  assumes "2 ^ 1024 \<le> a"
  shows "to_double a = PInf"
proof -
  have a: "0 < a"
  proof -
    have "(0::rat) < 2 ^ 1024" by simp
    then show ?thesis using assms by linarith
  qed
  define e where "e = ilog2 a"
  have b: "2 powi e \<le> a" "a < 2 powi (e + 1)"
    unfolding e_def using ilog2_bounds [OF a] by simp_all
  have "(2::rat) powi 1024 < 2 powi (e + 1)" using assms b(2) by simp
  then have "1024 < e + 1" by (rule pow2_less_iff [THEN iffD1])
  then have e: "1024 \<le> e" by simp
  let ?u = "(2::rat) powi (e - 52)"
  have u: "0 < ?u" by (simp add: power_int_def)
  have split: "(2::rat) powi e = 2 powi 52 * ?u"
    by (simp add: power_int_add [symmetric] del: power_int_numeral)
  have "2 powi 52 * ?u \<le> a" using b(1) split by simp
  then have "(2::rat) powi 52 \<le> a / ?u" using u by (simp add: field_simps)
  then have "of_int (2 ^ 52) \<le> a / ?u" by simp
  then have "2 ^ 52 \<le> \<lfloor>a / ?u\<rfloor>" by (simp only: le_floor_iff)
  moreover have "\<lfloor>a / ?u\<rfloor> \<le> round_half_even (a / ?u)"
    by (simp add: round_half_even_def Let_def)
  ultimately have "2 ^ 52 \<le> round_half_even (a / ?u)" by linarith
  then have "(of_int (2 ^ 52) :: rat) \<le> of_int (round_half_even (a / ?u))"
    by (simp only: of_int_le_iff)
  then have "of_int (2 ^ 52) * ?u \<le> of_int (round_half_even (a / ?u)) * ?u"
    using u by (simp only: mult_le_cancel_right_pos)
  then have "2 powi e \<le> of_int (round_half_even (a / ?u)) * ?u"
    using split by simp
  moreover have "(2::rat) powi 1024 \<le> 2 powi e"
    using e by (intro power_int_increasing) simp_all
  ultimately have "(2::rat) ^ 1024 \<le> of_int (round_half_even (a / ?u)) * ?u" by simp
  then show ?thesis
    using to_double_normal [OF a b] e by simp
qed

lemma round_half_even_small: "0 \<le> q \<Longrightarrow> q < 1 / 2 \<Longrightarrow> round_half_even q = 0"
proof -
  assume q: "0 \<le> q" "q < 1 / 2"
  then have "\<lfloor>q\<rfloor> = 0" by (intro floor_unique) simp_all
  then show ?thesis using q by (simp add: round_half_even_def)
qed

lemma to_double_underflow:
  assumes "0 < a" and "a < 2 powi (- 1075)"
  shows "to_double a = Fin 0"
proof -
  define e where "e = ilog2 a"
  define u :: rat where "u = 2 powi (- 1074)"
  have b: "2 powi e \<le> a" "a < 2 powi (e + 1)"
    unfolding e_def using ilog2_bounds [OF assms(1)] by simp_all
  have "(2::rat) powi e < 2 powi (- 1075)" using b(1) assms(2) by linarith
  then have "e < - 1075" by (rule pow2_less_iff [THEN iffD1])
  then have m: "max (ilog2 \<bar>a\<bar>) (- 1022) - 52 = - 1074" using assms(1) by (simp add: e_def)
  have u: "0 < u" "2 powi (- 1075) = u / 2"
    by (simp_all add: u_def)
  have "a / u < 1 / 2" using assms(2) u by (simp add: field_simps)
  moreover have "0 \<le> a / u" using assms(1) u(1) by simp
  ultimately have "round_half_even (a / u) = 0" by (intro round_half_even_small)
  then show ?thesis
    using assms(1) unfolding to_double_def Let_def m u_def [symmetric] by simp
qed

lemma floor_rat_numeral: "\<lfloor>numeral a / numeral b :: rat\<rfloor> = numeral a div numeral b"
  by (metis floor_divide_of_int_eq of_int_numeral)

lemmas double_eval = round_half_even_def Let_def floor_rat_numeral

lemma to_double_numeral:
  "numeral n \<le> (2::int) ^ 53 \<Longrightarrow> to_double (numeral n) = Fin (numeral n)"
  using to_double_of_int [of "numeral n"] by simp

lemma to_double_one: "to_double 1 = Fin 1"
  using to_double_of_int [of 1] by simp

lemma num_to_string_integer:
  "\<bar>k\<bar> \<le> 2 ^ 53 \<Longrightarrow> num_to_string rt (Fin (of_int k)) = show_int k"
proof -
  assume "\<bar>k\<bar> \<le> 2 ^ 53"
  then have "\<bar>of_int k :: rat\<bar> \<le> of_int (2 ^ 53)"
    by (simp only: of_int_abs [symmetric] of_int_le_iff)
  then show ?thesis by (simp add: num_to_string_def is_integer_def)
qed

section \<open>Properties of FilterService\<close>

lemma enumerate_Nil_iff [simp]: "enumerate n xs = [] \<longleftrightarrow> xs = []"
  by (cases xs) simp_all

lemma fragment_shift:
  "map (\<lambda>ikv. F ((f ^^ fst ikv) x) (snd ikv)) (enumerate (Suc n) xs)
     = map (\<lambda>ikv. F ((f ^^ fst ikv) (f x)) (snd ikv)) (enumerate n xs)"
  by (induction xs arbitrary: n) (simp_all add: funpow_swap1)

lemma filter_step_pair:
  "filter_step rt cm (ws, ps, idx) kv =
     (if passes cm kv then (ws @ [fragment rt cm idx kv], ps @ [snd kv], js_increment idx)
      else (ws, ps, idx))"
  by (simp add: filter_step_def)

text \<open>
  The loop, whatever the start index: the \<open>i\<close>-th accepted pair gets the index that \<open>i\<close>
  increments make of the start index.
\<close>

lemma filter_loop_gen:
  "foldl (filter_step rt cm) (ws, ps, idx) q =
     (ws @ map (\<lambda>ikv. fragment rt cm ((js_increment ^^ fst ikv) idx) (snd ikv))
             (enumerate 0 (filter (passes cm) q)),
      ps @ map snd (filter (passes cm) q),
      (js_increment ^^ length (filter (passes cm) q)) idx)"
proof (induction q arbitrary: ws ps idx)
  case Nil
  show ?case by simp
next
  case (Cons kv q)
  show ?case
  proof (cases "passes cm kv")
    case True
    then show ?thesis
      by (simp add: filter_step_pair Cons.IH fragment_shift funpow_swap1)
  next
    case False
    then show ?thesis
      by (simp add: filter_step_pair Cons.IH)
  qed
qed

lemma filter_loop_eq:
  "filter_loop rt query cm s =
     (map (\<lambda>ikv. fragment rt cm ((js_increment ^^ fst ikv) s) (snd ikv))
        (enumerate 0 (filter (passes cm) query)),
      map snd (filter (passes cm) query),
      (js_increment ^^ length (filter (passes cm) query)) s)"
  by (simp add: filter_loop_def filter_loop_gen)

lemma exact_indices_step:
  assumes "exact_indices r n" and "i \<le> n"
  shows "(js_increment ^^ i) (Fin r) = Fin (r + of_nat i)"
  using assms(2)
proof (induction i)
  case 0
  show ?case by simp
next
  case (Suc i)
  then have ih: "(js_increment ^^ i) (Fin r) = Fin (r + of_nat i)" by simp
  have "Suc i \<in> set [0..<Suc n]" using Suc.prems by auto
  then have "representable (r + of_nat (Suc i))"
    using assms(1) by (simp only: exact_indices_def list_all_iff)
  then have rounded: "to_double (r + of_nat (Suc i)) = Fin (r + of_nat (Suc i))"
    by (simp only: representable_def)
  have next_index: "r + of_nat i + 1 = r + of_nat (Suc i)" by simp
  have "(js_increment ^^ Suc i) (Fin r) = js_increment (Fin (r + of_nat i))"
    by (simp add: ih)
  also have "\<dots> = to_double (r + of_nat i + 1)" by (simp add: js_increment_def)
  also have "\<dots> = to_double (r + of_nat (Suc i))" by (simp only: next_index)
  also have "\<dots> = Fin (r + of_nat (Suc i))" by (rule rounded)
  finally show ?case .
qed

text \<open>
  The integers from \<open>-2\<^sup>5\<^sup>3\<close> to \<open>2\<^sup>5\<^sup>3\<close> are binary64 numbers, so a start index and a
  number of steps that stay among them are exact.
\<close>

lemma exact_indices_integer:
  assumes "- (2 ^ 53) \<le> s" and "s + int n \<le> 2 ^ 53"
  shows "exact_indices (of_int s) n"
proof -
  have "representable (of_int s + of_nat i)" if "i \<in> set [0..<Suc n]" for i
  proof -
    have "int i \<le> int n" using that by auto
    then have "- (2 ^ 53) \<le> s + int i" "s + int i \<le> 2 ^ 53" using assms by linarith+
    then have "\<bar>s + int i\<bar> \<le> 2 ^ 53" by (simp only: abs_le_iff) simp
    then have "to_double (of_int (s + int i)) = Fin (of_int (s + int i))"
      by (rule to_double_of_int)
    then show ?thesis by (simp add: representable_def)
  qed
  then show ?thesis by (simp only: exact_indices_def list_all_iff) blast
qed

text \<open>
  Claim C1. The claim is that a key absent from the column map contributes nothing to the
  predicate and nothing to the bound values. The guard of the loop is the truthiness of
  \<^verbatim>\<open>columnMap[key]\<close>, and that read goes through the prototype chain: with the
  controller's column map, which has no entry \<^verbatim>\<open>constructor\<close>, the filter
  \<^verbatim>\<open>{"constructor": "x"}\<close> yields a fragment that interpolates the text of the
  inherited function and binds the value \<^verbatim>\<open>"x"\<close>.
\<close>

theorem buildFilter_inherited_key:
  "buildFilter rt [(''constructor'', JStr ''x'')] abioticoColumnMap (Fin 1) =
     \<lparr>whereClause = ''WHERE function Object() { [native code] } = $1'',
      params = [JStr ''x''], nextIndex = Fin 2\<rparr>
   \<and> map_of [(''idcampanha'', ''a.idcampanha''), (''idsitio'', ''a.idsitio'')]
         ''constructor'' = None"
  by (simp add: buildFilter_def filter_loop_def filter_step_def fragment_def passes_def
      column_lookup_def abioticoColumnMap_def inherited_def object_prototype_def
      num_to_string_def is_integer_def show_int_def show_nat.simps digit_char_def
      js_increment_def to_double_numeral)

text \<open>
  Claim C2 as stated holds for every start index. The index is a Number, and the loop
  counts with \<^verbatim>\<open>paramIndex++\<close>: from \<open>2\<^sup>5\<^sup>3\<close> on, adding 1 rounds back to the same Number.
  With the start index \<open>2\<^sup>5\<^sup>3 = 9007199254740992\<close> and two accepted keys, both fragments
  carry the placeholder \<^verbatim>\<open>$9007199254740992\<close> and the next index is the start index,
  while the start index plus the two bound values is the Number \<open>9007199254740994\<close>.
\<close>

theorem buildFilter_index_saturates:
  "\<forall>rt. buildFilter rt [(''idsitio'', JStr ''5''), (''idcampanha'', JNum (Fin 10))]
           abioticoColumnMap (Fin 9007199254740992) =
         \<lparr>whereClause =
            ''WHERE a.idsitio = $9007199254740992 AND a.idcampanha = $9007199254740992'',
          params = [JStr ''5'', JNum (Fin 10)], nextIndex = Fin 9007199254740992\<rparr>
       \<and> to_double (9007199254740992 + 2) = Fin 9007199254740994
       \<and> Fin 9007199254740992 \<noteq> Fin 9007199254740994"
proof -
  have up: "to_double 9007199254740993 = Fin 9007199254740992"
    using to_double_normal [of 9007199254740993 53] by (simp add: double_eval)
  have two: "to_double 9007199254740994 = Fin 9007199254740994"
    using to_double_normal [of 9007199254740994 53] by (simp add: double_eval)
  show ?thesis
    by (simp add: buildFilter_def filter_loop_def filter_step_def fragment_def passes_def
        column_lookup_def abioticoColumnMap_def num_to_string_def is_integer_def show_int_def
        show_nat.simps digit_char_def js_increment_def up two)
qed

text \<open>
  Claim C2, as amended. Let the start index be a finite Number \<open>r\<close> such that \<open>r\<close>,
  \<open>r + 1\<close>, ..., \<open>r + n\<close> are all binary64 numbers, \<open>n\<close> being the number of pairs that the
  loop accepts (every integer start index with \<open>-2\<^sup>5\<^sup>3 \<le> r\<close> and \<open>r + n \<le> 2\<^sup>5\<^sup>3\<close> is such,
  by \<open>exact_indices_integer\<close>). Then the loop leaves as many fragments as bound values;
  the \<open>i\<close>-th fragment (counting from 0) carries the placeholder \<open>r + i\<close>; the next index
  is \<open>r\<close> plus the number of bound values; and the clause is empty exactly when no fragment
  was produced, in which case the bound values are empty and the next index is the start
  index.
\<close>

theorem buildFilter_placeholders:
  assumes "exact_indices r (length (filter (passes columnMap) query))"
  shows "(case filter_loop rt query columnMap (Fin r) of
      (whereClauses, ps, paramIndex) \<Rightarrow>
        length whereClauses = length ps
        \<and> whereClauses =
            map (\<lambda>ikv. fragment rt columnMap (Fin (r + of_nat (fst ikv))) (snd ikv))
              (enumerate 0 (filter (passes columnMap) query))
        \<and> ps = map snd (filter (passes columnMap) query)
        \<and> params (buildFilter rt query columnMap (Fin r)) = ps
        \<and> nextIndex (buildFilter rt query columnMap (Fin r)) = Fin (r + of_nat (length ps))
        \<and> whereClause (buildFilter rt query columnMap (Fin r)) =
             (if whereClauses = [] then [] else ''WHERE '' @ join '' AND '' whereClauses))"
proof -
  let ?acc = "filter (passes columnMap) query"
  have "fragment rt columnMap ((js_increment ^^ fst ikv) (Fin r)) (snd ikv)
      = fragment rt columnMap (Fin (r + of_nat (fst ikv))) (snd ikv)"
    if "ikv \<in> set (enumerate 0 ?acc)" for ikv
  proof -
    obtain i kv where ikv: "ikv = (i, kv)" by (cases ikv)
    have "i < length ?acc" using that by (simp add: ikv in_set_enumerate_eq)
    then show ?thesis using exact_indices_step [OF assms, of i] by (simp add: ikv)
  qed
  then have frags:
    "map (\<lambda>ikv. fragment rt columnMap ((js_increment ^^ fst ikv) (Fin r)) (snd ikv))
        (enumerate 0 ?acc)
     = map (\<lambda>ikv. fragment rt columnMap (Fin (r + of_nat (fst ikv))) (snd ikv))
        (enumerate 0 ?acc)"
    by (intro map_cong [OF refl])
  have last: "(js_increment ^^ length ?acc) (Fin r) = Fin (r + of_nat (length ?acc))"
    using exact_indices_step [OF assms, of "length ?acc"] by simp
  show ?thesis
    by (simp add: buildFilter_def filter_loop_eq frags last)
qed

theorem buildFilter_placeholders_witness:
  "\<forall>rt.
     params (buildFilter rt [(''page'', JStr ''2''), (''idsitio'', JStr ''5''), (''x'', JNull),
        (''idcampanha'', JNum (Fin 10))] abioticoColumnMap (Fin 7)) = [JStr ''5'', JNum (Fin 10)]
   \<and> nextIndex (buildFilter rt [(''page'', JStr ''2''), (''idsitio'', JStr ''5''), (''x'', JNull),
        (''idcampanha'', JNum (Fin 10))] abioticoColumnMap (Fin 7)) = Fin 9
   \<and> whereClause (buildFilter rt [(''page'', JStr ''2''), (''idsitio'', JStr ''5''), (''x'', JNull),
        (''idcampanha'', JNum (Fin 10))] abioticoColumnMap (Fin 7))
       = ''WHERE a.idsitio = $7 AND a.idcampanha = $8''"
proof
  fix rt
  let ?query = "[(''page'', JStr ''2''), (''idsitio'', JStr ''5''), (''x'', JNull),
                 (''idcampanha'', JNum (Fin 10))]"
  have acc: "filter (passes abioticoColumnMap) ?query
      = [(''idsitio'', JStr ''5''), (''idcampanha'', JNum (Fin 10))]"
    by (simp add: passes_def column_lookup_def abioticoColumnMap_def inherited_def
        object_prototype_def)
  have "exact_indices (of_int 7) 2"
    by (rule exact_indices_integer) simp_all
  then have exact: "exact_indices 7 (length (filter (passes abioticoColumnMap) ?query))"
    unfolding acc by (simp add: numeral_2_eq_2)
  have digits: "num_to_string rt (Fin 7) = ''7''" "num_to_string rt (Fin 8) = ''8''"
    using num_to_string_integer [of 7 rt] num_to_string_integer [of 8 rt]
    by (simp_all add: show_int_def show_nat.simps digit_char_def)
  show "params (buildFilter rt ?query abioticoColumnMap (Fin 7)) = [JStr ''5'', JNum (Fin 10)]
   \<and> nextIndex (buildFilter rt ?query abioticoColumnMap (Fin 7)) = Fin 9
   \<and> whereClause (buildFilter rt ?query abioticoColumnMap (Fin 7))
       = ''WHERE a.idsitio = $7 AND a.idcampanha = $8''"
    using buildFilter_placeholders [OF exact, of rt]
    by (simp add: filter_loop_eq passes_def fragment_def column_lookup_def abioticoColumnMap_def
        inherited_def object_prototype_def digits enumerate_eq_zip upt_rec)
qed

section \<open>Properties of ExportService\<close>

lemma str_includes_single: "str_includes s [c] \<longleftrightarrow> c \<in> set s"
  by (induction s) auto

lemma escapeCsvValue_quoted: "escapeCsvValue rt v [d] = quoted d (cell_text rt v)"
  by (simp add: escapeCsvValue_def quoted_def cell_text_def str_includes_single Let_def)

lemma dquote_neq_newline: "dquote \<noteq> newline"
  by (simp add: dquote_def newline_def)

lemma scan_plain:
  "d \<notin> set f \<Longrightarrow> dquote \<notin> set f \<Longrightarrow> newline \<notin> set f \<Longrightarrow> st \<noteq> InQuoted \<Longrightarrow>
     scan d st acc row (f @ rest) = scan d (if f = [] then st else InPlain) (rev f @ acc) row rest"
proof (induction f arbitrary: st acc)
  case Nil
  show ?case by simp
next
  case (Cons c f)
  have "scan d st acc row ((c # f) @ rest) = scan d InPlain (c # acc) row (f @ rest)"
    using Cons.prems by auto
  also have "\<dots> = scan d InPlain (rev f @ c # acc) row rest"
    using Cons.IH [of InPlain "c # acc"] Cons.prems by simp
  finally show ?case by simp
qed

lemma scan_quoted:
  "d \<noteq> dquote \<Longrightarrow>
     scan d InQuoted acc row (double_quotes f @ dquote # rest) = scan d AfterQuote (rev f @ acc) row rest"
proof (induction f arbitrary: acc)
  case Nil
  show ?case by (simp add: double_quotes_def)
next
  case (Cons c f)
  show ?case
  proof (cases "c = dquote")
    case True
    have "scan d InQuoted acc row (double_quotes (c # f) @ dquote # rest)
            = scan d InQuoted (dquote # acc) row (double_quotes f @ dquote # rest)"
      using True Cons.prems dquote_neq_newline by (simp add: double_quotes_def)
    then show ?thesis using Cons.IH [OF Cons.prems, of "dquote # acc"] True by simp
  next
    case False
    have "scan d InQuoted acc row (double_quotes (c # f) @ dquote # rest)
            = scan d InQuoted (c # acc) row (double_quotes f @ dquote # rest)"
      using False by (simp add: double_quotes_def)
    then show ?thesis using Cons.IH [OF Cons.prems, of "c # acc"] by simp
  qed
qed

lemma scan_at_end:
  "st \<noteq> InQuoted \<Longrightarrow> closes d rest \<Longrightarrow> scan d st fld row rest = field_end d (rev fld) row rest"
  by (cases rest) (auto simp: closes_def)

lemma scan_field:
  assumes "d \<noteq> dquote" and "closes d rest"
  shows "scan d AtStart [] row (quoted d f @ rest) = field_end d f row rest"
proof (cases "d \<in> set f \<or> dquote \<in> set f \<or> newline \<in> set f")
  case True
  then have "scan d AtStart [] row (quoted d f @ rest)
               = scan d InQuoted [] row (double_quotes f @ dquote # rest)"
    using assms(1) dquote_neq_newline by (simp add: quoted_def)
  also have "\<dots> = scan d AfterQuote (rev f) row rest"
    using scan_quoted [OF assms(1), of "[]" row f rest] by simp
  also have "\<dots> = field_end d f row rest"
    using scan_at_end [of AfterQuote d rest "rev f" row] assms(2) by simp
  finally show ?thesis .
next
  case False
  then have "scan d AtStart [] row (quoted d f @ rest)
               = scan d (if f = [] then AtStart else InPlain) (rev f) row rest"
    using scan_plain [of d f AtStart "[]" row rest] by (simp add: quoted_def)
  also have "\<dots> = field_end d f row rest"
    using scan_at_end [of "if f = [] then AtStart else InPlain" d rest "rev f" row] assms(2) by simp
  finally show ?thesis .
qed

lemma scan_line:
  assumes "d \<noteq> dquote" and "d \<noteq> newline"
  shows "fs \<noteq> [] \<Longrightarrow> rest = [] \<or> hd rest = newline \<Longrightarrow>
     scan d AtStart [] row (csv_line d fs @ rest) =
       (case rest of [] \<Rightarrow> [rev row @ fs] | c # cs \<Rightarrow> (rev row @ fs) # scan d AtStart [] [] cs)"
proof (induction fs arbitrary: row)
  case Nil
  then show ?case by simp
next
  case (Cons f fs)
  show ?case
  proof (cases fs)
    case Nil
    have "closes d rest" using Cons.prems(2) by (cases rest) (auto simp: closes_def)
    then have "scan d AtStart [] row (csv_line d [f] @ rest) = field_end d f row rest"
      using scan_field [OF assms(1), of rest row f] by (simp add: csv_line_def)
    then show ?thesis using Nil Cons.prems(2) assms(2) by (cases rest) auto
  next
    case (Cons g gs)
    have "csv_line d (f # fs) @ rest = quoted d f @ d # (csv_line d fs @ rest)"
      using Cons by (simp add: csv_line_def)
    moreover have "closes d (d # (csv_line d fs @ rest))" by (simp add: closes_def)
    ultimately have "scan d AtStart [] row (csv_line d (f # fs) @ rest)
        = scan d AtStart [] (f # row) (csv_line d fs @ rest)"
      using scan_field [OF assms(1), of "d # (csv_line d fs @ rest)" row f] by simp
    then show ?thesis
      using Cons.IH [of "f # row"] Cons Cons.prems(2) by (cases rest) auto
  qed
qed

lemma scan_lines:
  assumes "d \<noteq> dquote" and "d \<noteq> newline"
  shows "rows \<noteq> [] \<Longrightarrow> list_all (\<lambda>r. r \<noteq> []) rows \<Longrightarrow>
     scan d AtStart [] [] (join [newline] (map (csv_line d) rows)) = rows"
proof (induction rows)
  case Nil
  then show ?case by simp
next
  case (Cons r rows)
  show ?case
  proof (cases rows)
    case Nil
    then show ?thesis
      using scan_line [OF assms, of r "[]" "[]"] Cons.prems by simp
  next
    case (Cons r2 rows2)
    have "join [newline] (map (csv_line d) (r # rows))
            = csv_line d r @ newline # join [newline] (map (csv_line d) rows)"
      using Cons by simp
    then show ?thesis
      using scan_line [OF assms, of r "newline # join [newline] (map (csv_line d) rows)" "[]"]
        Cons.IH Cons.prems Cons by simp
  qed
qed


lemma csv_cells:
  "traverse (\<lambda>key. case read_prop (JObj r) key of Inl e \<Rightarrow> Inl e
                      | Inr v \<Rightarrow> Inr (escapeCsvValue rt v [d])) ks
     = Inr (map (\<lambda>k. quoted d (cell_text rt (get_prop (JObj r) k))) ks)"
  by (induction ks) (simp_all add: escapeCsvValue_quoted del: get_prop.simps)

lemma csv_rows:
  "traverse
     (\<lambda>row. case traverse (\<lambda>key. case read_prop row key of Inl e \<Rightarrow> Inl e
                                   | Inr v \<Rightarrow> Inr (escapeCsvValue rt v [d])) ks of
               Inl e \<Rightarrow> Inl e
             | Inr values \<Rightarrow> Inr (join [d] values))
     (map JObj recs)
   = Inr (map (\<lambda>r. csv_line d (map (\<lambda>k. cell_text rt (get_prop (JObj r) k)) ks)) recs)"
  by (induction recs) (simp_all add: csv_cells csv_line_def comp_def del: get_prop.simps read_prop.simps)

lemma csv_body_objects:
  assumes "recs \<noteq> []" and "ks = map fst (hd recs)"
  shows "csv_body rt (map JObj recs) True [d] enc =
     Inr (encodeBuffer
            (join [newline]
               (join [d] ks # map (\<lambda>r. csv_line d (map (\<lambda>k. cell_text rt (get_prop (JObj r) k)) ks)) recs))
            enc)"
proof -
  have keys: "Object_keys (hd (map JObj recs)) = Inr ks"
    using assms by (cases recs) simp_all
  show ?thesis
    using assms(1) by (simp add: csv_body_def keys csv_rows del: get_prop.simps)
qed

lemma quoted_plain:
  "d \<notin> set k \<Longrightarrow> dquote \<notin> set k \<Longrightarrow> newline \<notin> set k \<Longrightarrow> quoted d k = k"
  by (simp add: quoted_def)

lemma zip_map_self: "zip ks (map f ks) = map (\<lambda>k. (k, f k)) ks"
  by (induction ks) simp_all

lemma get_prop_own: "k \<in> fst ` set r \<Longrightarrow> get_prop (JObj r) k = own_value r k"
  by (auto simp: own_value_def map_of_eq_None_iff split: option.splits)

lemma round_trip_char:
  assumes d: "d \<noteq> dquote" "d \<noteq> newline"
    and recs: "recs \<noteq> []"
    and ks: "ks = map fst (hd recs)"
    and keys: "ks \<noteq> []"
    and plain: "list_all (\<lambda>k. d \<notin> set k \<and> dquote \<notin> set k \<and> newline \<notin> set k) ks"
    and share: "list_all (\<lambda>r. set ks \<subseteq> fst ` set r) recs"
  shows "\<exists>text. generateCSV rt (map JObj recs) True [d] enc = Fulfilled (encodeBuffer text enc)
           \<and> spec_parse_csv [d] text =
               map (\<lambda>r. map (\<lambda>k. (k, cell_text rt (own_value r k))) ks) recs"
proof -
  let ?cells = "\<lambda>r. map (\<lambda>k. cell_text rt (get_prop (JObj r) k)) ks"
  let ?text = "join [newline] (join [d] ks # map (\<lambda>r. csv_line d (?cells r)) recs)"
  have header: "join [d] ks = csv_line d ks"
  proof -
    have "map (quoted d) ks = ks"
      using plain by (intro map_idI) (auto simp: list_all_iff quoted_plain)
    then show ?thesis by (simp add: csv_line_def)
  qed
  have joined: "?text = join [newline] (map (csv_line d) (ks # map ?cells recs))"
    by (simp add: header comp_def del: get_prop.simps)
  have nonempty: "list_all (\<lambda>r. r \<noteq> []) (ks # map ?cells recs)"
    using keys by (simp add: list_all_iff)
  have scanned: "scan d AtStart [] [] ?text = ks # map ?cells recs"
    unfolding joined using scan_lines [OF d _ nonempty] by simp
  have own: "map ?cells recs = map (\<lambda>r. map (\<lambda>k. cell_text rt (own_value r k)) ks) recs"
  proof (rule map_cong [OF refl])
    fix r assume "r \<in> set recs"
    then have "set ks \<subseteq> fst ` set r" using share by (simp add: list_all_iff)
    then show "?cells r = map (\<lambda>k. cell_text rt (own_value r k)) ks"
      by (intro map_cong [OF refl]) (simp add: get_prop_own subset_iff del: get_prop.simps)
  qed
  have "spec_parse_csv [d] ?text = map (zip ks) (map ?cells recs)"
    by (simp add: spec_parse_csv_def scanned del: get_prop.simps)
  also have "\<dots> = map (\<lambda>r. map (\<lambda>k. (k, cell_text rt (own_value r k))) ks) recs"
    unfolding own by (simp add: zip_map_self comp_def)
  finally have parsed: "spec_parse_csv [d] ?text
      = map (\<lambda>r. map (\<lambda>k. (k, cell_text rt (own_value r k))) ks) recs" .
  have "generateCSV rt (map JObj recs) True [d] enc = Fulfilled (encodeBuffer ?text enc)"
    by (simp add: generateCSV_def csv_body_objects [OF recs ks] async_def del: get_prop.simps)
  with parsed show ?thesis by blast
qed

text \<open>
  What the value cells do. For the delimiters \<^verbatim>\<open>,\<close> and \<^verbatim>\<open>;\<close> and records that
  own the keys of the first record, none of these keys containing the delimiter, a double
  quote or a newline: the text that \<^verbatim>\<open>generateCSV\<close> hands to the encoder is read back,
  by header row and delimiter, as the records that list each key with the text of the
  record's value, whatever delimiters, double quotes and newlines the values contain.
\<close>

lemma escaped_values_read_back:
  assumes "delim = '','' \<or> delim = '';''"
    and "recs \<noteq> []"
    and "map fst (hd recs) \<noteq> []"
    and "list_all (\<lambda>k. \<not> str_includes k delim \<and> \<not> str_includes k [dquote] \<and> \<not> str_includes k [newline])
           (map fst (hd recs))"
    and "list_all (\<lambda>r. set (map fst (hd recs)) \<subseteq> fst ` set r) recs"
  shows "\<exists>text. generateCSV rt (map JObj recs) True delim enc = Fulfilled (encodeBuffer text enc)
           \<and> spec_parse_csv delim text =
               map (\<lambda>r. map (\<lambda>k. (k, cell_text rt (own_value r k))) (map fst (hd recs))) recs"
proof -
  obtain d where d: "delim = [d]" "d \<noteq> dquote" "d \<noteq> newline"
    using assms(1) by (auto simp: dquote_def newline_def)
  have "list_all (\<lambda>k. d \<notin> set k \<and> dquote \<notin> set k \<and> newline \<notin> set k) (map fst (hd recs))"
    using assms(4) by (simp add: d(1) str_includes_single)
  from round_trip_char [OF d(2,3) assms(2) refl assms(3) this assms(5)] show ?thesis
    by (simp add: d(1))
qed

text \<open>
  Claim C3. The claim is that the CSV generated with headers, read back by header row and
  delimiter, reproduces the key/value pairs of every flat record. The value cells go
  through \<^verbatim>\<open>escapeCsvValue\<close>, which quotes a text that contains the delimiter; the header
  row is \<^verbatim>\<open>keys.join(delimiter)\<close>, without that escaping. So a key that contains the
  delimiter is read back as two columns: the record \<^verbatim>\<open>{"a;b": "1"}\<close> with delimiter
  \<^verbatim>\<open>;\<close> gives the text \<^verbatim>\<open>a;b\<close>, newline, \<^verbatim>\<open>1\<close>, which reads back as
  \<^verbatim>\<open>{"a": "1"}\<close>, while the same text as a value would have been written
  \<^verbatim>\<open>"a;b"\<close>.
\<close>

theorem generateCSV_header_not_escaped:
  "\<forall>rt. generateCSV rt [JObj [(''a;b'', JStr ''1'')]] True '';'' ''utf-8''
          = Fulfilled (Utf8 (''a;b'' @ [newline] @ ''1''))
      \<and> spec_parse_csv '';'' (''a;b'' @ [newline] @ ''1'') = [[(''a'', ''1'')]]
      \<and> [[(''a'', ''1'')]] \<noteq> [[(''a;b'', ''1'')]]
      \<and> escapeCsvValue rt (JStr ''a;b'') '';'' = [dquote] @ ''a;b'' @ [dquote]"
  by (simp add: generateCSV_def csv_body_def async_def escapeCsvValue_def encodeBuffer_def
      spec_parse_csv_def double_quotes_def dquote_def newline_def)

lemma generateExportFile_adopts:
  "generateExportFile rt writeBuffer data (Some opts) =
     (if format opts = ''xlsx'' then generateXLSX writeBuffer data (includeHeaders opts)
      else generateCSV rt data (includeHeaders opts)
             (or_default (delimiter opts) '';'') (or_default (encoding opts) ''utf-8''))"
  by (simp add: generateExportFile_def export_try_def)

text \<open>
  Claim C8. The claim is that an error raised while the file is generated reaches the caller
  only as the generic error \<^verbatim>\<open>Falha ao gerar o arquivo.\<close> The handler is there, but the
  generators are \<^verbatim>\<open>async\<close> and their promise is returned without \<^verbatim>\<open>await\<close>, so their
  failure is not an exception of the \<^verbatim>\<open>try\<close> block: for the data \<^verbatim>\<open>[null]\<close> the CSV
  generator fails in \<^verbatim>\<open>Object.keys(data[0])\<close>, and the caller receives that
  \<^verbatim>\<open>TypeError\<close> itself.
\<close>

theorem generateExportFile_error_not_wrapped:
  "generateExportFile rt writeBuffer [JNull]
      (Some \<lparr>format = ''csv'', encoding = None, delimiter = None, includeHeaders = True\<rparr>)
     = Rejected (TypeError ''Cannot convert undefined or null to object'')
   \<and> TypeError ''Cannot convert undefined or null to object'' \<noteq> Error ''Falha ao gerar o arquivo.''"
  by (simp add: generateExportFile_adopts generateCSV_def csv_body_def async_def or_default_def)

text \<open>
  Claim C9. Whatever the format is, as long as it is not the string \<^verbatim>\<open>xlsx\<close>,
  \<^verbatim>\<open>generateExportFile\<close> is the CSV generator, called with the delimiter and the encoding
  of the options, \<^verbatim>\<open>;\<close> and \<^verbatim>\<open>utf-8\<close> standing in for an absent one.
\<close>

theorem generateExportFile_csv_path:
  "format opts \<noteq> ''xlsx'' \<Longrightarrow>
     generateExportFile rt writeBuffer data (Some opts) =
       generateCSV rt data (includeHeaders opts)
         (or_default (delimiter opts) '';'') (or_default (encoding opts) ''utf-8'')
     \<and> or_default None '';'' = '';'' \<and> or_default None ''utf-8'' = ''utf-8''"
  by (simp add: generateExportFile_adopts or_default_def)

theorem generateExportFile_csv_path_witness:
  "\<forall>rt writeBuffer data.
     generateExportFile rt writeBuffer data
       (Some \<lparr>format = ''pdf'', encoding = None, delimiter = None, includeHeaders = True\<rparr>)
     = generateCSV rt data True '';'' ''utf-8''"
proof (intro allI)
  fix rt :: js_runtime and writeBuffer :: "(bool \<times> jsval list) list \<Rightarrow> js_error + string"
    and data :: "jsval list"
  show "generateExportFile rt writeBuffer data
       (Some \<lparr>format = ''pdf'', encoding = None, delimiter = None, includeHeaders = True\<rparr>)
     = generateCSV rt data True '';'' ''utf-8''"
    using generateExportFile_csv_path [where rt = rt and writeBuffer = writeBuffer and data = data
        and opts = "\<lparr>format = ''pdf'', encoding = None, delimiter = None, includeHeaders = True\<rparr>"]
    by (simp add: or_default_def)
qed

section \<open>Properties of DataFormatterService\<close>

subsection \<open>Numbers\<close>

lemma trim_decomp:
  "\<exists>a b. s = a @ trim s @ b \<and> list_all js_space a \<and> list_all js_space b"
proof -
  let ?u = "dropWhile js_space s"
  have 1: "s = takeWhile js_space s @ ?u" by simp
  have "?u = rev (takeWhile js_space (rev ?u) @ dropWhile js_space (rev ?u))"
    by (simp only: takeWhile_dropWhile_id rev_rev_ident)
  then have 3: "?u = trim s @ rev (takeWhile js_space (rev ?u))"
    by (simp only: rev_append trim_def)
  have "s = takeWhile js_space s @ trim s @ rev (takeWhile js_space (rev ?u))"
    using 1 3 by metis
  moreover have "list_all js_space (takeWhile js_space s)"
    by (simp add: list_all_iff) (meson set_takeWhileD)
  moreover have "list_all js_space (rev (takeWhile js_space (rev ?u)))"
    by (simp add: list_all_iff) (meson set_takeWhileD)
  ultimately show ?thesis by blast
qed

lemma count_spaces:
  "list_all js_space a \<Longrightarrow> \<not> js_space c \<Longrightarrow> count_list a c = 0"
  by (induction a) auto

lemma count_trim: "\<not> js_space c \<Longrightarrow> count_list (trim s) c = count_list s c"
proof -
  assume c: "\<not> js_space c"
  obtain a b where ab: "s = a @ trim s @ b" "list_all js_space a" "list_all js_space b"
    using trim_decomp by blast
  have "count_list s c = count_list (a @ trim s @ b) c" using ab(1) by simp
  then show ?thesis using count_spaces [OF ab(2) c] count_spaces [OF ab(3) c] by simp
qed

lemma not_space [simp]: "\<not> js_space (CHR '','')" "\<not> js_space (CHR ''.'')"
  by (simp_all add: js_space_def)

lemma count_digits:
  "list_all is_digit ds \<Longrightarrow> \<not> is_digit c \<Longrightarrow> count_list ds c = 0"
  by (induction ds) auto

lemma not_digit [simp]: "\<not> is_digit (CHR '','')" "\<not> is_digit (CHR ''.'')"
  by (simp_all add: is_digit_def)

lemma takeWhile_all: "list_all P (takeWhile P xs)"
  by (induction xs) simp_all

lemma exponent_part_chars:
  assumes "exponent_part r = Some e"
  shows "count_list r (CHR '','') = 0 \<and> count_list r (CHR ''.'') = 0"
proof (cases "r = []")
  case True
  then show ?thesis by simp
next
  case False
  then obtain c r1 where r: "r = c # r1" by (cases r) auto
  have c: "c = CHR ''e'' \<or> c = CHR ''E''"
    using assms r by (auto simp: exponent_part_def split: if_splits)
  define ds where "ds = (if starts_with r1 (CHR ''-'') \<or> starts_with r1 (CHR ''+'') then tl r1 else r1)"
  have ds: "list_all is_digit ds"
    using assms r c by (auto simp: exponent_part_def ds_def Let_def split: if_splits)
  have "count_list r1 x = count_list ds x" if "x = CHR '','' \<or> x = CHR ''.''" for x
    using that by (cases r1) (auto simp: ds_def starts_with_def)
  then show ?thesis
    using r c count_digits [OF ds] by auto
qed

lemma mantissa_chars:
  assumes "mantissa s = Some (m, r)"
  shows "count_list s (CHR '','') = count_list r (CHR '','')
       \<and> count_list s (CHR ''.'') \<le> 1 + count_list r (CHR ''.'')"
proof -
  let ?ip = "takeWhile is_digit s" and ?r1 = "dropWhile is_digit s"
  have s: "s = ?ip @ ?r1" by simp
  have ip: "count_list ?ip (CHR '','') = 0" "count_list ?ip (CHR ''.'') = 0"
    using count_digits [OF takeWhile_all [of is_digit s]] by simp_all
  show ?thesis
  proof (cases "starts_with ?r1 (CHR ''.'')")
    case True
    then obtain r2 where r2: "?r1 = CHR ''.'' # r2" by (cases ?r1) (auto simp: starts_with_def)
    let ?fp = "takeWhile is_digit r2"
    have r: "r = dropWhile is_digit r2"
      using assms True r2 by (auto simp: mantissa_def Let_def split: if_splits)
    have r2s: "r2 = ?fp @ r" using r by simp
    have fp: "count_list ?fp (CHR '','') = 0" "count_list ?fp (CHR ''.'') = 0"
      using count_digits [OF takeWhile_all [of is_digit r2]] by simp_all
    have "count_list s x = count_list ?ip x + count_list (CHR ''.'' # ?fp @ r) x" for x
      by (subst s, subst r2, subst r2s) simp
    then show ?thesis using ip fp by simp
  next
    case False
    then have "r = ?r1"
      using assms by (auto simp: mantissa_def Let_def split: if_splits)
    then have "count_list s x = count_list ?ip x + count_list r x" for x
      using count_list_append [of ?ip ?r1 x] by simp
    then show ?thesis using ip by simp
  qed
qed

lemma unsigned_decimal_chars:
  assumes "unsigned_decimal s \<noteq> NaN"
  shows "count_list s (CHR '','') = 0 \<and> count_list s (CHR ''.'') \<le> 1"
proof (cases "s = ''Infinity''")
  case True
  then show ?thesis by simp
next
  case False
  then obtain m r e where "mantissa s = Some (m, r)" "exponent_part r = Some e"
    using assms by (auto simp: unsigned_decimal_def split: option.splits)
  then show ?thesis
    using mantissa_chars [of s m r] exponent_part_chars [of r e] by simp
qed

lemma negate_NaN [simp]: "negate n = NaN \<longleftrightarrow> n = NaN"
  by (cases n) (simp_all add: negate_def)

lemma signed_decimal_chars:
  assumes "signed_decimal s \<noteq> NaN"
  shows "count_list s (CHR '','') = 0 \<and> count_list s (CHR ''.'') \<le> 1"
proof (cases "starts_with s (CHR ''-'') \<or> starts_with s (CHR ''+'')")
  case True
  then obtain c t where s: "s = c # t" "c = CHR ''-'' \<or> c = CHR ''+''"
    by (cases s) (auto simp: starts_with_def)
  then have "unsigned_decimal t \<noteq> NaN"
    using assms by (auto simp: signed_decimal_def starts_with_def)
  then show ?thesis using unsigned_decimal_chars [of t] s by auto
next
  case False
  then show ?thesis using assms unsigned_decimal_chars [of s] by (simp add: signed_decimal_def)
qed

lemma radix_literal_chars:
  assumes "radix_literal b ds \<noteq> NaN"
  shows "count_list ds (CHR '','') = 0 \<and> count_list ds (CHR ''.'') = 0"
proof -
  have "list_all (\<lambda>c. radix_digit c \<noteq> None) ds"
    using assms by (auto simp: radix_literal_def list_all_iff split: if_splits option.splits)
  then show ?thesis
    by (induction ds) (auto simp: radix_digit_def is_digit_def)
qed

lemma prefixed_chars:
  assumes "take 2 t = [CHR ''0'', c]" and "c \<noteq> CHR '',''" and "c \<noteq> CHR ''.''"
    and "radix_literal b (drop 2 t) \<noteq> NaN"
  shows "count_list t (CHR '','') = 0 \<and> count_list t (CHR ''.'') = 0"
proof -
  have "t = take 2 t @ drop 2 t" by simp
  then have "count_list t x = count_list [CHR ''0'', c] x + count_list (drop 2 t) x" for x
    using assms(1) by (metis count_list_append)
  then show ?thesis using radix_literal_chars [OF assms(4)] assms(2,3) by simp
qed

lemma StringToNumber_chars:
  assumes "StringToNumber s \<noteq> NaN"
  shows "count_list s (CHR '','') = 0 \<and> count_list s (CHR ''.'') \<le> 1"
proof -
  let ?t = "trim s"
  have "count_list ?t (CHR '','') = 0 \<and> count_list ?t (CHR ''.'') \<le> 1"
  proof (cases "?t = []")
    case True
    then show ?thesis by simp
  next
    case False
    consider (hex) c where "take 2 ?t = [CHR ''0'', c]" "c \<noteq> CHR '',''" "c \<noteq> CHR ''.''"
        "\<exists>b. radix_literal b (drop 2 ?t) \<noteq> NaN"
      | (dec) "signed_decimal ?t \<noteq> NaN"
      using assms False by (auto simp: StringToNumber_def Let_def split: if_splits)
    then show ?thesis
    proof cases
      case hex
      then show ?thesis using prefixed_chars by (metis le_numeral_extra(3) zero_le)
    next
      case dec
      then show ?thesis using signed_decimal_chars by simp
    qed
  qed
  then show ?thesis by (simp add: count_trim)
qed

lemma comma_to_dot_single:
  "count_list u (CHR '','') \<le> 1 \<Longrightarrow>
     comma_to_dot u = map (\<lambda>c. if c = CHR '','' then CHR ''.'' else c) u"
proof (induction u)
  case Nil
  show ?case by simp
next
  case (Cons c u)
  show ?case
  proof (cases "c = CHR '',''")
    case True
    then have "count_list u (CHR '','') = 0" using Cons.prems by simp
    then have "CHR '','' \<notin> set u" by (simp add: count_list_0_iff)
    then have "list_all (\<lambda>c. c \<noteq> CHR '','') u" by (auto simp: list_all_iff)
    then have "map (\<lambda>c. if c = CHR '','' then CHR ''.'' else c) u = u"
      by (induction u) simp_all
    moreover have "comma_to_dot (c # u) = CHR ''.'' # u" using True by simp
    moreover have "map (\<lambda>c. if c = CHR '','' then CHR ''.'' else c) (c # u)
        = CHR ''.'' # map (\<lambda>c. if c = CHR '','' then CHR ''.'' else c) u"
      using True by simp
    ultimately show ?thesis by (simp only:)
  next
    case False
    then have "count_list u (CHR '','') \<le> 1" using Cons.prems by simp
    then have "comma_to_dot u = map (\<lambda>c. if c = CHR '','' then CHR ''.'' else c) u"
      by (rule Cons.IH)
    then show ?thesis using False by simp
  qed
qed


lemma count_comma_to_dot:
  "count_list (comma_to_dot u) (CHR '','') = count_list u (CHR '','') - 1"
  by (induction u) auto

lemma count_dots_mapped:
  "count_list (map (\<lambda>c. if c = CHR '','' then CHR ''.'' else c) u) (CHR ''.'')
     = count_list u (CHR ''.'') + count_list u (CHR '','')"
  by (induction u) auto

lemma StringToNumber_NaN:
  assumes "count_list s (CHR '','') \<noteq> 0 \<or> 2 \<le> count_list s (CHR ''.'')"
  shows "StringToNumber s = NaN"
proof (rule ccontr)
  assume "StringToNumber s \<noteq> NaN"
  from StringToNumber_chars [OF this] show False using assms by auto
qed

lemma StringToNumber_commas:
  "StringToNumber (comma_to_dot u) = StringToNumber (map (\<lambda>c. if c = CHR '','' then CHR ''.'' else c) u)"
proof (cases "count_list u (CHR '','') \<le> 1")
  case True
  then show ?thesis by (simp only: comma_to_dot_single)
next
  case False
  then have two: "2 \<le> count_list u (CHR '','')" by simp
  have "count_list (comma_to_dot u) (CHR '','') \<noteq> 0"
    using two by (simp add: count_comma_to_dot)
  then have a: "StringToNumber (comma_to_dot u) = NaN"
    by (simp add: StringToNumber_NaN)
  have "2 \<le> count_list (map (\<lambda>c. if c = CHR '','' then CHR ''.'' else c) u) (CHR ''.'')"
    using two by (simp add: count_dots_mapped)
  then have "StringToNumber (map (\<lambda>c. if c = CHR '','' then CHR ''.'' else c) u) = NaN"
    by (simp add: StringToNumber_NaN)
  with a show ?thesis by simp
qed

lemma parseLocaleNumber_string:
  "parseLocaleNumber rt (JStr s) =
     (if trim s = [] then JNull
      else number_or_null (StringToNumber
             (if str_includes (trim s) '','' then spec_decimal_comma (trim s) else trim s)))"
  by (simp add: parseLocaleNumber_def spec_decimal_comma_def StringToNumber_commas Let_def)

lemmas number_eval = parseLocaleNumber_def trim_def js_space_def strip_dots_def StringToNumber_def
  signed_decimal_def unsigned_decimal_def mantissa_def exponent_part_def starts_with_def
  is_digit_def digits_val_def digit_val_def number_or_null_def scale10_def

text \<open>
  The parse rounds: a literal beyond the largest Number gives \<^verbatim>\<open>Infinity\<close>, one below
  half the smallest gives 0, and \<open>2\<^sup>5\<^sup>3 + 1\<close> gives \<open>2\<^sup>5\<^sup>3\<close>.
\<close>

lemma parseLocaleNumber_binary64:
  "parseLocaleNumber rt (JStr ''1e400'') = JNum PInf
   \<and> parseLocaleNumber rt (JStr ''-1e400'') = JNum NInf
   \<and> parseLocaleNumber rt (JStr ''1e-400'') = JNum (Fin 0)
   \<and> parseLocaleNumber rt (JStr ''9007199254740993'') = JNum (Fin 9007199254740992)"
proof -
  have up: "to_double 9007199254740993 = Fin 9007199254740992"
    using to_double_normal [of 9007199254740993 53] by (simp add: double_eval)
  have over: "to_double (10 ^ 400) = PInf"
    by (rule to_double_overflow) simp
  have under: "to_double (1 / 10 ^ 400) = Fin 0"
    by (rule to_double_underflow) simp_all
  have a: "parseLocaleNumber rt (JStr ''1e400'') = number_or_null (to_double (10 ^ 400))"
      "parseLocaleNumber rt (JStr ''-1e400'') = number_or_null (negate (to_double (10 ^ 400)))"
      "parseLocaleNumber rt (JStr ''1e-400'') = number_or_null (to_double (1 / 10 ^ 400))"
      "parseLocaleNumber rt (JStr ''9007199254740993'')
         = number_or_null (to_double 9007199254740993)"
    by (simp_all add: parseLocaleNumber_def trim_def js_space_def StringToNumber_def
        signed_decimal_def unsigned_decimal_def mantissa_def exponent_part_def starts_with_def
        is_digit_def digits_val_def digit_val_def scale10_def del: power_numeral)
  show ?thesis
    unfolding a over under up by (simp add: number_or_null_def negate_def)
qed

text \<open>
  Claim C5, as amended. The three examples hold, 1234.56 being the Number nearest to
  \<open>123456 / 100\<close>. For a string whose trimmed text is not empty: if it contains a comma,
  the result is the parse of the text with its dots stripped and its comma turned into a
  dot (the code replaces the first comma only; with more than one comma both readings fail
  to parse and give \<^verbatim>\<open>null\<close>); otherwise it is the parse of the trimmed text. A string
  that is empty after trimming gives \<^verbatim>\<open>null\<close> without being parsed.
\<close>

theorem parseLocaleNumber_locale:
  "parseLocaleNumber rt (JStr ''1.234,56'') = JNum (to_double (123456 / 100))
   \<and> parseLocaleNumber rt (JStr ''1234.56'') = JNum (to_double (123456 / 100))
   \<and> to_double (123456 / 100) = Fin (2714826150374277 / 2199023255552)
   \<and> parseLocaleNumber rt (JStr ''abc'') = JNull
   \<and> (trim s \<noteq> [] \<and> str_includes (trim s) '','' \<longrightarrow>
        parseLocaleNumber rt (JStr s) = number_or_null (StringToNumber (spec_decimal_comma (trim s)))
        \<and> parseLocaleNumber rt (JStr s)
            = number_or_null (StringToNumber (comma_to_dot (strip_dots (trim s)))))
   \<and> (trim s \<noteq> [] \<and> \<not> str_includes (trim s) '','' \<longrightarrow>
        parseLocaleNumber rt (JStr s) = number_or_null (StringToNumber (trim s)))
   \<and> (trim s = [] \<longrightarrow> parseLocaleNumber rt (JStr s) = JNull)"
proof (intro conjI)
  have nearest: "to_double (123456 / 100) = Fin (2714826150374277 / 2199023255552)"
    using to_double_normal [of "123456 / 100" 10] by (simp add: double_eval)
  have parsed:
    "parseLocaleNumber rt (JStr ''1.234,56'') = number_or_null (to_double (123456 / 100))"
    "parseLocaleNumber rt (JStr ''1234.56'') = number_or_null (to_double (123456 / 100))"
    by (simp_all add: parseLocaleNumber_def trim_def js_space_def strip_dots_def
        StringToNumber_def signed_decimal_def unsigned_decimal_def mantissa_def
        exponent_part_def starts_with_def is_digit_def digits_val_def digit_val_def scale10_def)
  show "parseLocaleNumber rt (JStr ''1.234,56'') = JNum (to_double (123456 / 100))"
    unfolding parsed nearest by (simp add: number_or_null_def)
  show "parseLocaleNumber rt (JStr ''1234.56'') = JNum (to_double (123456 / 100))"
    unfolding parsed nearest by (simp add: number_or_null_def)
  show "to_double (123456 / 100) = Fin (2714826150374277 / 2199023255552)"
    by (rule nearest)
  show "parseLocaleNumber rt (JStr ''abc'') = JNull"
    by (simp add: number_eval)
  show "trim s \<noteq> [] \<and> str_includes (trim s) '','' \<longrightarrow>
        parseLocaleNumber rt (JStr s) = number_or_null (StringToNumber (spec_decimal_comma (trim s)))
        \<and> parseLocaleNumber rt (JStr s)
            = number_or_null (StringToNumber (comma_to_dot (strip_dots (trim s))))"
    by (simp add: parseLocaleNumber_string) (simp add: spec_decimal_comma_def StringToNumber_commas)
  show "trim s \<noteq> [] \<and> \<not> str_includes (trim s) '','' \<longrightarrow>
        parseLocaleNumber rt (JStr s) = number_or_null (StringToNumber (trim s))"
    by (simp add: parseLocaleNumber_string)
  show "trim s = [] \<longrightarrow> parseLocaleNumber rt (JStr s) = JNull"
    by (simp add: parseLocaleNumber_string)
qed

theorem parseLocaleNumber_locale_witness:
  "\<forall>rt. parseLocaleNumber rt (JStr '' 5,0 '') = JNum (Fin 5)
      \<and> parseLocaleNumber rt (JStr ''1,2,3'') = JNull
      \<and> parseLocaleNumber rt (JStr ''-12.5e1'') = JNum (Fin (- 125))
      \<and> parseLocaleNumber rt (JStr ''  '') = JNull"
proof
  fix rt
  have a: "trim '' 5,0 '' = ''5,0''" "trim ''1,2,3'' = ''1,2,3''" "trim ''-12.5e1'' = ''-12.5e1''"
      "trim ''  '' = []"
    by (simp_all add: trim_def js_space_def)
  show "parseLocaleNumber rt (JStr '' 5,0 '') = JNum (Fin 5)
      \<and> parseLocaleNumber rt (JStr ''1,2,3'') = JNull
      \<and> parseLocaleNumber rt (JStr ''-12.5e1'') = JNum (Fin (- 125))
      \<and> parseLocaleNumber rt (JStr ''  '') = JNull"
    using parseLocaleNumber_locale [of rt "'' 5,0 ''"] parseLocaleNumber_locale [of rt "''1,2,3''"]
      parseLocaleNumber_locale [of rt "''-12.5e1''"] parseLocaleNumber_locale [of rt "''  ''"]
    by (simp add: a spec_decimal_comma_def strip_dots_def StringToNumber_def trim_def js_space_def
        signed_decimal_def unsigned_decimal_def mantissa_def exponent_part_def starts_with_def
        is_digit_def digits_val_def digit_val_def number_or_null_def scale10_def negate_def
        to_double_numeral)
qed

text \<open>
  Claim C5 as stated has every comma-free string parsed directly. The empty string has no
  comma, and parsing it directly gives 0, but \<^verbatim>\<open>parseLocaleNumber\<close> returns \<^verbatim>\<open>null\<close>
  for it before any parse.
\<close>

theorem parseLocaleNumber_blank:
  "\<forall>rt. parseLocaleNumber rt (JStr []) = JNull
      \<and> \<not> str_includes (trim []) '',''
      \<and> number_or_null (StringToNumber (trim [])) = JNum (Fin 0)"
  by (simp add: parseLocaleNumber_def trim_def StringToNumber_def number_or_null_def)

subsection \<open>Output records\<close>

lemma formatListOutput_fields:
  assumes "truthy row" and "formatListOutput rt row = Inr out"
  shows "\<exists>fs. out = JObj fs \<and> map fst fs = list_keys
      \<and> own_value fs ''sitio'' =
          (if truthy (get_prop row ''idsitio'') then get_prop row ''sitio_nome'' else JUndefined)
      \<and> own_value fs ''campanha'' =
          (if truthy (get_prop row ''idcampanha'') then get_prop row ''nrocampanha'' else JUndefined)"
  using assms
  by (auto simp: formatListOutput_def list_keys_def own_value_def split: sum.splits)

lemma json_fields_undefined:
  "own_value fs k = JUndefined \<Longrightarrow> distinct (map fst fs) \<Longrightarrow> k \<notin> fst ` set (json_fields fs)"
proof -
  assume u: "own_value fs k = JUndefined" and d: "distinct (map fst fs)"
  show "k \<notin> fst ` set (json_fields fs)"
  proof
    assume "k \<in> fst ` set (json_fields fs)"
    then obtain v where v: "(k, v) \<in> set fs" "\<not> json_omits v"
      by (auto simp: json_fields_def)
    then have "map_of fs k = Some v" using d by simp
    then have "own_value fs k = v" by (simp add: own_value_def)
    then show False using u v(2) by simp
  qed
qed

lemma distinct_list_keys: "distinct list_keys"
  by (simp add: list_keys_def)

text \<open>
  Claim C7, as amended. For every truthy row on which \<^verbatim>\<open>formatListOutput\<close> returns, the
  record has the eleven properties of a list record. When the row's \<^verbatim>\<open>idsitio\<close> is
  \<^verbatim>\<open>null\<close>, its \<^verbatim>\<open>sitio\<close> holds \<^verbatim>\<open>undefined\<close> (not \<^verbatim>\<open>null\<close>) and is left out
  of the JSON serialisation; likewise \<^verbatim>\<open>campanha\<close> for \<^verbatim>\<open>idcampanha\<close>. When the
  foreign key is truthy, \<^verbatim>\<open>sitio\<close> carries the row's \<^verbatim>\<open>sitio_nome\<close> and
  \<^verbatim>\<open>campanha\<close> its \<^verbatim>\<open>nrocampanha\<close>.
\<close>

theorem formatListOutput_relationships:
  assumes "truthy row" and "formatListOutput rt row = Inr out"
  shows "\<exists>fs. out = JObj fs \<and> map fst fs = list_keys
      \<and> (get_prop row ''idsitio'' = JNull \<longrightarrow>
            own_value fs ''sitio'' = JUndefined \<and> ''sitio'' \<notin> fst ` set (json_fields fs))
      \<and> (get_prop row ''idcampanha'' = JNull \<longrightarrow>
            own_value fs ''campanha'' = JUndefined \<and> ''campanha'' \<notin> fst ` set (json_fields fs))
      \<and> (truthy (get_prop row ''idsitio'') \<longrightarrow> own_value fs ''sitio'' = get_prop row ''sitio_nome'')
      \<and> (truthy (get_prop row ''idcampanha'') \<longrightarrow>
            own_value fs ''campanha'' = get_prop row ''nrocampanha'')"
proof -
  obtain fs where fs: "out = JObj fs" "map fst fs = list_keys"
      "own_value fs ''sitio'' =
          (if truthy (get_prop row ''idsitio'') then get_prop row ''sitio_nome'' else JUndefined)"
      "own_value fs ''campanha'' =
          (if truthy (get_prop row ''idcampanha'') then get_prop row ''nrocampanha'' else JUndefined)"
    using formatListOutput_fields [OF assms] by blast
  have d: "distinct (map fst fs)" using fs(2) distinct_list_keys by simp
  show ?thesis
    using fs json_fields_undefined [OF _ d] by (intro exI [of _ fs]) auto
qed

text \<open>
  Claim C7 as stated has the key absent. The object literal creates the property with the
  value \<^verbatim>\<open>undefined\<close>: for a row whose foreign keys are \<^verbatim>\<open>null\<close>, the keys of the
  record, which are the columns of an export, include \<^verbatim>\<open>sitio\<close> and \<^verbatim>\<open>campanha\<close>.
\<close>

theorem formatListOutput_key_present:
  "\<forall>rt. formatListOutput rt (JObj [(''idsitio'', JNull), (''idcampanha'', JNull)]) =
      Inr (JObj
        [(''idabioticocoluna'', JUndefined), (''datamedida'', JNull), (''horamedida'', JUndefined),
         (''profundidade'', JNull), (''dic'', JNull), (''nt'', JNull), (''pt'', JNull),
         (''delta13c'', JNull), (''delta15n'', JNull),
         (''sitio'', JUndefined), (''campanha'', JUndefined)])
    \<and> Object_keys (JObj
        [(''idabioticocoluna'', JUndefined), (''datamedida'', JNull), (''horamedida'', JUndefined),
         (''profundidade'', JNull), (''dic'', JNull), (''nt'', JNull), (''pt'', JNull),
         (''delta13c'', JNull), (''delta15n'', JNull),
         (''sitio'', JUndefined), (''campanha'', JUndefined)])
      = Inr [''idabioticocoluna'', ''datamedida'', ''horamedida'', ''profundidade'', ''dic'',
           ''nt'', ''pt'', ''delta13c'', ''delta15n'', ''sitio'', ''campanha'']"
  by (simp add: formatListOutput_def normalizeDate_def parseLocaleNumber_def inherited_def
      object_prototype_def string_or_null_def)

theorem formatListOutput_relationships_witness:
  "\<forall>rt. \<exists>fs.
     formatListOutput rt (JObj [(''idsitio'', JNull), (''idcampanha'', JNum (Fin 4)),
        (''nrocampanha'', JNum (Fin 7))]) = Inr (JObj fs)
     \<and> map fst fs = list_keys
     \<and> own_value fs ''sitio'' = JUndefined \<and> ''sitio'' \<notin> fst ` set (json_fields fs)
     \<and> own_value fs ''campanha'' = JNum (Fin 7)"
proof
  fix rt
  let ?row = "JObj [(''idsitio'', JNull), (''idcampanha'', JNum (Fin 4)), (''nrocampanha'', JNum (Fin 7))]"
  obtain out where out: "formatListOutput rt ?row = Inr out"
    by (simp add: formatListOutput_def normalizeDate_def inherited_def object_prototype_def)
  have "truthy ?row" by simp
  from formatListOutput_relationships [OF this out]
  show "\<exists>fs. formatListOutput rt ?row = Inr (JObj fs)
     \<and> map fst fs = list_keys
     \<and> own_value fs ''sitio'' = JUndefined \<and> ''sitio'' \<notin> fst ` set (json_fields fs)
     \<and> own_value fs ''campanha'' = JNum (Fin 7)"
    using out by auto
qed


lemma campanha_detail_fields:
  assumes "truthy (get_prop row ''idcampanha'')" and "campanha_detail rt row = Inr c"
  shows "\<exists>cs. c = JObj cs \<and> map fst cs = campanha_keys
      \<and> own_value cs ''reservatorio'' =
          (if truthy (get_prop row ''idreservatorio'') then
             JObj [(''idreservatorio'', get_prop row ''idreservatorio''),
                   (''nome'', get_prop row ''reservatorio_nome'')]
           else JUndefined)"
  using assms
  by (auto simp: campanha_detail_def campanha_keys_def own_value_def split: sum.splits)

lemma formatDetailOutput_fields:
  assumes "truthy row" and "formatDetailOutput rt row = Inr out"
  shows "\<exists>fs c. out = JObj fs \<and> map fst fs = list_keys
      \<and> own_value fs ''sitio'' =
          (if truthy (get_prop row ''idsitio'') then
             JObj [(''idsitio'', get_prop row ''idsitio''),
                   (''nome'', get_prop row ''sitio_nome''),
                   (''lat'', parseLocaleNumber rt (get_prop row ''sitio_lat'')),
                   (''lng'', parseLocaleNumber rt (get_prop row ''sitio_lng'')),
                   (''descricao'', get_prop row ''sitio_descricao'')]
           else JUndefined)
      \<and> campanha_detail rt row = Inr c \<and> own_value fs ''campanha'' = c"
  using assms
  by (auto simp: formatDetailOutput_def list_keys_def own_value_def split: sum.splits)

lemma campanha_detail_falsy:
  "\<not> truthy (get_prop row ''idcampanha'') \<Longrightarrow> campanha_detail rt row = Inr JUndefined"
  by (simp add: campanha_detail_def)

lemma suppressed:
  assumes "map fst fs = ks" and "distinct ks" and "k \<in> set ks" and "own_value fs k = JUndefined"
  shows "k \<in> set (map fst fs) \<and> own_value fs k = JUndefined \<and> k \<notin> fst ` set (json_fields fs)"
proof -
  have "distinct (map fst fs)" using assms(1,2) by simp
  then have "k \<notin> fst ` set (json_fields fs)"
    using json_fields_undefined assms(4) by blast
  then show ?thesis using assms by simp
qed

text \<open>
  Claim C10, as amended. For every falsy foreign key (0, the empty string, \<^verbatim>\<open>false\<close>,
  \<^verbatim>\<open>NaN\<close>, \<^verbatim>\<open>null\<close>, \<^verbatim>\<open>undefined\<close>), whatever the display values in the row: the
  \<^verbatim>\<open>sitio\<close> property of a list record and of a detail record is present and holds
  \<^verbatim>\<open>undefined\<close>, so the JSON serialisation leaves it out; the same for \<^verbatim>\<open>campanha\<close>
  and \<^verbatim>\<open>idcampanha\<close>, in a list record and in a detail record; and in a detail record
  whose \<^verbatim>\<open>idcampanha\<close> is truthy, the same for the \<^verbatim>\<open>reservatorio\<close> property of the
  nested campaign and \<^verbatim>\<open>idreservatorio\<close>.
\<close>

theorem falsy_foreign_keys:
  "(truthy row \<and> formatListOutput rt row = Inr out \<and> \<not> truthy (get_prop row ''idsitio'') \<longrightarrow>
      (\<exists>fs. out = JObj fs \<and> ''sitio'' \<in> set (map fst fs) \<and> own_value fs ''sitio'' = JUndefined
         \<and> ''sitio'' \<notin> fst ` set (json_fields fs)))
   \<and> (truthy row \<and> formatListOutput rt row = Inr out \<and> \<not> truthy (get_prop row ''idcampanha'') \<longrightarrow>
      (\<exists>fs. out = JObj fs \<and> ''campanha'' \<in> set (map fst fs) \<and> own_value fs ''campanha'' = JUndefined
         \<and> ''campanha'' \<notin> fst ` set (json_fields fs)))
   \<and> (truthy row \<and> formatDetailOutput rt row = Inr out' \<and> \<not> truthy (get_prop row ''idsitio'') \<longrightarrow>
      (\<exists>fs. out' = JObj fs \<and> ''sitio'' \<in> set (map fst fs) \<and> own_value fs ''sitio'' = JUndefined
         \<and> ''sitio'' \<notin> fst ` set (json_fields fs)))
   \<and> (truthy row \<and> formatDetailOutput rt row = Inr out' \<and> \<not> truthy (get_prop row ''idcampanha'') \<longrightarrow>
      (\<exists>fs. out' = JObj fs \<and> ''campanha'' \<in> set (map fst fs) \<and> own_value fs ''campanha'' = JUndefined
         \<and> ''campanha'' \<notin> fst ` set (json_fields fs)))
   \<and> (truthy row \<and> formatDetailOutput rt row = Inr out' \<and> truthy (get_prop row ''idcampanha'')
        \<and> \<not> truthy (get_prop row ''idreservatorio'') \<longrightarrow>
      (\<exists>fs cs. out' = JObj fs \<and> own_value fs ''campanha'' = JObj cs
         \<and> ''reservatorio'' \<in> set (map fst cs) \<and> own_value cs ''reservatorio'' = JUndefined
         \<and> ''reservatorio'' \<notin> fst ` set (json_fields cs)))"
proof (intro conjI impI)
  assume a: "truthy row \<and> formatListOutput rt row = Inr out \<and> \<not> truthy (get_prop row ''idsitio'')"
  then obtain fs where fs: "out = JObj fs" "map fst fs = list_keys"
      "own_value fs ''sitio'' = JUndefined"
    using formatListOutput_fields [of row rt out] by auto
  have "''sitio'' \<in> set list_keys" by (simp add: list_keys_def)
  from suppressed [OF fs(2) distinct_list_keys this fs(3)]
  show "\<exists>fs. out = JObj fs \<and> ''sitio'' \<in> set (map fst fs)
      \<and> own_value fs ''sitio'' = JUndefined \<and> ''sitio'' \<notin> fst ` set (json_fields fs)"
    using fs(1) by blast
next
  assume a: "truthy row \<and> formatListOutput rt row = Inr out \<and> \<not> truthy (get_prop row ''idcampanha'')"
  then obtain fs where fs: "out = JObj fs" "map fst fs = list_keys"
      "own_value fs ''campanha'' = JUndefined"
    using formatListOutput_fields [of row rt out] by auto
  have "''campanha'' \<in> set list_keys" by (simp add: list_keys_def)
  from suppressed [OF fs(2) distinct_list_keys this fs(3)]
  show "\<exists>fs. out = JObj fs \<and> ''campanha'' \<in> set (map fst fs)
      \<and> own_value fs ''campanha'' = JUndefined \<and> ''campanha'' \<notin> fst ` set (json_fields fs)"
    using fs(1) by blast
next
  assume a: "truthy row \<and> formatDetailOutput rt row = Inr out' \<and> \<not> truthy (get_prop row ''idsitio'')"
  then obtain fs where fs: "out' = JObj fs" "map fst fs = list_keys"
      "own_value fs ''sitio'' = JUndefined"
    using formatDetailOutput_fields [of row rt out'] by auto
  have "''sitio'' \<in> set list_keys" by (simp add: list_keys_def)
  from suppressed [OF fs(2) distinct_list_keys this fs(3)]
  show "\<exists>fs. out' = JObj fs \<and> ''sitio'' \<in> set (map fst fs)
      \<and> own_value fs ''sitio'' = JUndefined \<and> ''sitio'' \<notin> fst ` set (json_fields fs)"
    using fs(1) by blast
next
  assume a: "truthy row \<and> formatDetailOutput rt row = Inr out' \<and> \<not> truthy (get_prop row ''idcampanha'')"
  then obtain fs c where fs: "out' = JObj fs" "map fst fs = list_keys"
      "campanha_detail rt row = Inr c" "own_value fs ''campanha'' = c"
    using formatDetailOutput_fields [of row rt out'] by auto
  have "c = JUndefined" using a fs(3) by (simp add: campanha_detail_falsy)
  then have u: "own_value fs ''campanha'' = JUndefined" using fs(4) by simp
  have "''campanha'' \<in> set list_keys" by (simp add: list_keys_def)
  from suppressed [OF fs(2) distinct_list_keys this u]
  show "\<exists>fs. out' = JObj fs \<and> ''campanha'' \<in> set (map fst fs)
      \<and> own_value fs ''campanha'' = JUndefined \<and> ''campanha'' \<notin> fst ` set (json_fields fs)"
    using fs(1) by blast
next
  assume a: "truthy row \<and> formatDetailOutput rt row = Inr out' \<and> truthy (get_prop row ''idcampanha'')
        \<and> \<not> truthy (get_prop row ''idreservatorio'')"
  then obtain fs c where fs: "out' = JObj fs" "campanha_detail rt row = Inr c"
      "own_value fs ''campanha'' = c"
    using formatDetailOutput_fields [of row rt out'] by auto
  obtain cs where cs: "c = JObj cs" "map fst cs = campanha_keys"
      "own_value cs ''reservatorio'' = JUndefined"
    using campanha_detail_fields [of row rt c] a fs(2) by auto
  have "distinct campanha_keys" "''reservatorio'' \<in> set campanha_keys"
    by (simp_all add: campanha_keys_def)
  from suppressed [OF cs(2) this cs(3)]
  show "\<exists>fs cs. out' = JObj fs \<and> own_value fs ''campanha'' = JObj cs
         \<and> ''reservatorio'' \<in> set (map fst cs) \<and> own_value cs ''reservatorio'' = JUndefined
         \<and> ''reservatorio'' \<notin> fst ` set (json_fields cs)"
    using fs cs(1) by blast
qed

theorem falsy_foreign_keys_witness:
  "\<forall>rt. \<exists>fs fs' fs'' cs.
      formatListOutput rt (JObj [(''idsitio'', JNum (Fin 0)), (''sitio_nome'', JStr ''Sitio A''),
          (''idcampanha'', JStr []), (''nrocampanha'', JNum (Fin 7))]) = Inr (JObj fs)
      \<and> ''sitio'' \<in> set (map fst fs) \<and> own_value fs ''sitio'' = JUndefined
      \<and> ''sitio'' \<notin> fst ` set (json_fields fs)
      \<and> ''campanha'' \<in> set (map fst fs) \<and> own_value fs ''campanha'' = JUndefined
      \<and> ''campanha'' \<notin> fst ` set (json_fields fs)
      \<and> formatDetailOutput rt (JObj [(''idsitio'', JNum (Fin 0)), (''sitio_nome'', JStr ''Sitio A''),
          (''idcampanha'', JStr []), (''nrocampanha'', JNum (Fin 7))]) = Inr (JObj fs'')
      \<and> ''sitio'' \<in> set (map fst fs'') \<and> own_value fs'' ''sitio'' = JUndefined
      \<and> ''sitio'' \<notin> fst ` set (json_fields fs'')
      \<and> ''campanha'' \<in> set (map fst fs'') \<and> own_value fs'' ''campanha'' = JUndefined
      \<and> ''campanha'' \<notin> fst ` set (json_fields fs'')
      \<and> formatDetailOutput rt (JObj [(''idcampanha'', JNum (Fin 5)), (''idreservatorio'', JNum (Fin 0)),
          (''reservatorio_nome'', JStr ''Furnas'')]) = Inr (JObj fs')
      \<and> own_value fs' ''campanha'' = JObj cs
      \<and> ''reservatorio'' \<in> set (map fst cs) \<and> own_value cs ''reservatorio'' = JUndefined
      \<and> ''reservatorio'' \<notin> fst ` set (json_fields cs)"
proof
  fix rt
  let ?r1 = "JObj [(''idsitio'', JNum (Fin 0)), (''sitio_nome'', JStr ''Sitio A''),
          (''idcampanha'', JStr []), (''nrocampanha'', JNum (Fin 7))]"
  let ?r2 = "JObj [(''idcampanha'', JNum (Fin 5)), (''idreservatorio'', JNum (Fin 0)),
          (''reservatorio_nome'', JStr ''Furnas'')]"
  obtain o1 where o1: "formatListOutput rt ?r1 = Inr o1"
    by (simp add: formatListOutput_def normalizeDate_def inherited_def object_prototype_def)
  obtain o2 where o2: "formatDetailOutput rt ?r2 = Inr o2"
    by (simp add: formatDetailOutput_def campanha_detail_def normalizeDate_def inherited_def
        object_prototype_def)
  obtain o3 where o3: "formatDetailOutput rt ?r1 = Inr o3"
    by (simp add: formatDetailOutput_def campanha_detail_def normalizeDate_def inherited_def
        object_prototype_def)
  have t: "truthy ?r1" "truthy ?r2" "\<not> truthy (get_prop ?r1 ''idsitio'')"
      "\<not> truthy (get_prop ?r1 ''idcampanha'')" "truthy (get_prop ?r2 ''idcampanha'')"
      "\<not> truthy (get_prop ?r2 ''idreservatorio'')"
    by simp_all
  note list_row = falsy_foreign_keys [of ?r1 rt o1 o3]
  note detail_row = falsy_foreign_keys [of ?r2 rt o1 o2]
  show "\<exists>fs fs' fs'' cs.
      formatListOutput rt ?r1 = Inr (JObj fs)
      \<and> ''sitio'' \<in> set (map fst fs) \<and> own_value fs ''sitio'' = JUndefined
      \<and> ''sitio'' \<notin> fst ` set (json_fields fs)
      \<and> ''campanha'' \<in> set (map fst fs) \<and> own_value fs ''campanha'' = JUndefined
      \<and> ''campanha'' \<notin> fst ` set (json_fields fs)
      \<and> formatDetailOutput rt ?r1 = Inr (JObj fs'')
      \<and> ''sitio'' \<in> set (map fst fs'') \<and> own_value fs'' ''sitio'' = JUndefined
      \<and> ''sitio'' \<notin> fst ` set (json_fields fs'')
      \<and> ''campanha'' \<in> set (map fst fs'') \<and> own_value fs'' ''campanha'' = JUndefined
      \<and> ''campanha'' \<notin> fst ` set (json_fields fs'')
      \<and> formatDetailOutput rt ?r2 = Inr (JObj fs')
      \<and> own_value fs' ''campanha'' = JObj cs
      \<and> ''reservatorio'' \<in> set (map fst cs) \<and> own_value cs ''reservatorio'' = JUndefined
      \<and> ''reservatorio'' \<notin> fst ` set (json_fields cs)"
  proof -
    obtain fs where A: "o1 = JObj fs" "''sitio'' \<in> set (map fst fs)"
        "own_value fs ''sitio'' = JUndefined" "''sitio'' \<notin> fst ` set (json_fields fs)"
      using conjunct1 [OF list_row] o1 t(1,3) by blast
    obtain fs2 where B: "o1 = JObj fs2" "''campanha'' \<in> set (map fst fs2)"
        "own_value fs2 ''campanha'' = JUndefined" "''campanha'' \<notin> fst ` set (json_fields fs2)"
      using conjunct1 [OF conjunct2 [OF list_row]] o1 t(1,4) by blast
    obtain fs3 where D: "o3 = JObj fs3" "''sitio'' \<in> set (map fst fs3)"
        "own_value fs3 ''sitio'' = JUndefined" "''sitio'' \<notin> fst ` set (json_fields fs3)"
      using conjunct1 [OF conjunct2 [OF conjunct2 [OF list_row]]] o3 t(1,3) by blast
    obtain fs4 where E: "o3 = JObj fs4" "''campanha'' \<in> set (map fst fs4)"
        "own_value fs4 ''campanha'' = JUndefined" "''campanha'' \<notin> fst ` set (json_fields fs4)"
      using conjunct1 [OF conjunct2 [OF conjunct2 [OF conjunct2 [OF list_row]]]] o3 t(1,4)
      by blast
    obtain fs' cs where C: "o2 = JObj fs'" "own_value fs' ''campanha'' = JObj cs"
        "''reservatorio'' \<in> set (map fst cs)" "own_value cs ''reservatorio'' = JUndefined"
        "''reservatorio'' \<notin> fst ` set (json_fields cs)"
      using conjunct2 [OF conjunct2 [OF conjunct2 [OF conjunct2 [OF detail_row]]]] o2 t(2,5,6)
      by blast
    have "fs2 = fs" "fs4 = fs3" using A(1) B(1) D(1) E(1) by simp_all
    then show ?thesis using A B C D E o1 o2 o3 by blast
  qed
qed

text \<open>
  Claim C10 as stated has, for some row, an output that contains no \<^verbatim>\<open>sitio\<close> field. No
  record returned by \<^verbatim>\<open>formatListOutput\<close> lacks the property \<^verbatim>\<open>sitio\<close> or the
  property \<^verbatim>\<open>campanha\<close>.
\<close>

theorem formatListOutput_always_has_sitio:
  "\<not> (\<exists>rt row fs. truthy row \<and> formatListOutput rt row = Inr (JObj fs)
         \<and> (''sitio'' \<notin> set (map fst fs) \<or> ''campanha'' \<notin> set (map fst fs)))"
proof
  assume "\<exists>rt row fs. truthy row \<and> formatListOutput rt row = Inr (JObj fs)
         \<and> (''sitio'' \<notin> set (map fst fs) \<or> ''campanha'' \<notin> set (map fst fs))"
  then obtain rt row fs where a: "truthy row" "formatListOutput rt row = Inr (JObj fs)"
      "''sitio'' \<notin> set (map fst fs) \<or> ''campanha'' \<notin> set (map fst fs)"
    by blast
  have "map fst fs = list_keys"
    using formatListOutput_fields [OF a(1,2)] by auto
  then show False using a(3) by (simp add: list_keys_def)
qed

subsection \<open>Dates\<close>

lemma year_search_upper: "n < DayFromYear (year_search n y + 1)"
proof (induction n y rule: year_search.induct)
  case (1 n y)
  show ?case
  proof (cases "DayFromYear (y + 1) \<le> n")
    case True
    then show ?thesis using "1.IH" by (subst year_search.simps) simp
  next
    case False
    then show ?thesis by (subst year_search.simps) simp
  qed
qed

lemma year_search_lower: "DayFromYear y \<le> n \<Longrightarrow> DayFromYear (year_search n y) \<le> n"
proof (induction n y rule: year_search.induct)
  case (1 n y)
  show ?case
  proof (cases "DayFromYear (y + 1) \<le> n")
    case True
    then show ?thesis using "1.IH" by (subst year_search.simps) simp
  next
    case False
    then show ?thesis using "1.prems" by (subst year_search.simps) simp
  qed
qed

lemma DayFromYear_1970: "DayFromYear 1970 = 0"
  by (simp add: DayFromYear_def)

lemma DayFromYear_upper: "1970 \<le> y \<Longrightarrow> DayFromYear y \<le> 366 * (y - 1970)"
proof (induction y rule: int_ge_induct)
  case base
  show ?case by (simp add: DayFromYear_1970)
next
  case (step i)
  then show ?case using DayFromYear_Suc [of i] DaysInYear_bounds(2) [of i] by simp
qed

lemma DayFromYear_lower: "y \<le> 1970 \<Longrightarrow> DayFromYear y \<le> 365 * (y - 1970)"
proof (induction y rule: int_le_induct)
  case base
  show ?case by (simp add: DayFromYear_1970)
next
  case (step i)
  then show ?case using DayFromYear_Suc [of "i - 1"] DaysInYear_bounds(1) [of "i - 1"] by simp
qed

lemma year_start_below: "DayFromYear (1970 + (if 0 \<le> n then n div 366 else n div 365)) \<le> n"
proof (cases "0 \<le> n")
  case True
  then have "0 \<le> n div 366" by simp
  then have "DayFromYear (1970 + n div 366) \<le> 366 * (n div 366)"
    using DayFromYear_upper [of "1970 + n div 366"] by simp
  also have "\<dots> \<le> n" by simp
  finally show ?thesis using True by simp
next
  case False
  then have "n div 365 < 0" by (simp add: div_neg_pos_less0)
  then have "n div 365 \<le> 0" by simp
  then have "DayFromYear (1970 + n div 365) \<le> 365 * (n div 365)"
    using DayFromYear_lower [of "1970 + n div 365"] by simp
  also have "\<dots> \<le> n" by simp
  finally show ?thesis using False by simp
qed

lemma YearFromDay_spec:
  "DayFromYear (YearFromDay n) \<le> n" "n < DayFromYear (YearFromDay n + 1)"
  unfolding YearFromDay_def
  using year_search_lower [OF year_start_below] year_search_upper by blast+

lemma DayWithinYear_bounds:
  "0 \<le> DayWithinYear n" "DayWithinYear n < DaysInYear (YearFromDay n)"
  using YearFromDay_spec [of n] DayFromYear_Suc [of "YearFromDay n"]
  by (simp_all add: DayWithinYear_def)

lemma MonthFromDay_range: "0 \<le> MonthFromDay n" "MonthFromDay n \<le> 11"
  by (simp_all add: MonthFromDay_def Let_def)

lemma DateFromDay_range: "1 \<le> DateFromDay n" "DateFromDay n \<le> 31"
proof -
  have b: "0 \<le> DayWithinYear n" "DayWithinYear n < DaysInYear (YearFromDay n)"
    by (rule DayWithinYear_bounds)+
  have l: "DaysInYear (YearFromDay n) = (if InLeapYear (YearFromDay n) then 366 else 365)"
    by (auto simp: InLeapYear_def DaysInYear_def)
  show "1 \<le> DateFromDay n"
    using b by (auto simp: DateFromDay_def MonthFromDay_def Let_def month_start_def)
  show "DateFromDay n \<le> 31"
    using b l by (auto simp: DateFromDay_def MonthFromDay_def Let_def month_start_def split: if_splits)
qed

lemma MakeDay_components:
  "MakeDay (YearFromDay n) (MonthFromDay n) (DateFromDay n) = n"
proof -
  have "MonthFromDay n div 12 = 0" "MonthFromDay n mod 12 = MonthFromDay n"
    using MonthFromDay_range [of n] by simp_all
  then show ?thesis
    by (simp add: MakeDay_def DateFromDay_def DayWithinYear_def)
qed

lemma Day_aligned: "Day (n * msPerDay) = n"
  by (simp add: Day_def msPerDay_def)


lemma digit_char_props:
  assumes "n < 10"
  shows "is_digit (digit_char n)" "digit_val (digit_char n) = n"
proof -
  have "n \<in> {0, 1, 2, 3, 4, 5, 6, 7, 8, 9}" using assms by auto
  then show "is_digit (digit_char n)" "digit_val (digit_char n) = n"
    by (auto simp: digit_char_def is_digit_def digit_val_def)
qed

lemma digits_val_snoc: "digits_val (ds @ [c]) = 10 * digits_val ds + digit_val c"
  by (simp add: digits_val_def)

lemma show_nat_props:
  "list_all is_digit (show_nat n) \<and> digits_val (show_nat n) = n \<and> show_nat n \<noteq> []"
proof (induction n rule: show_nat.induct)
  case (1 n)
  show ?case
  proof (cases "n < 10")
    case True
    then show ?thesis
      using digit_char_props [of n] by (subst (1 2 3) show_nat.simps) (simp add: digits_val_def)
  next
    case False
    have m: "n mod 10 < 10" by simp
    show ?thesis
      using False "1.IH" digit_char_props [OF m]
      by (subst (1 2 3) show_nat.simps) (simp add: digits_val_snoc)
  qed
qed

lemma length_show_nat: "0 < k \<Longrightarrow> n < 10 ^ k \<Longrightarrow> length (show_nat n) \<le> k"
proof (induction n arbitrary: k rule: show_nat.induct)
  case (1 n)
  show ?case
  proof (cases "n < 10")
    case True
    then show ?thesis using "1.prems" by (subst show_nat.simps) simp
  next
    case False
    then have k: "1 < k" using "1.prems" by (cases "k = 1") auto
    have "n div 10 < 10 ^ (k - 1)"
    proof -
      have "n < 10 * 10 ^ (k - 1)" using "1.prems" k by (cases k) auto
      then show ?thesis by (simp add: less_mult_imp_div_less mult.commute)
    qed
    then have "length (show_nat (n div 10)) \<le> k - 1"
      using "1.IH" [OF False, of "k - 1"] k by simp
    then show ?thesis using False k by (subst show_nat.simps) simp
  qed
qed

lemma digits_val_zeros: "digits_val (replicate k (CHR ''0'') @ ds) = digits_val ds"
proof -
  have "foldl (\<lambda>a c. 10 * a + digit_val c) 0 (replicate k (CHR ''0'')) = 0"
    by (induction k) (simp_all add: digit_val_def)
  then show ?thesis by (simp add: digits_val_def)
qed

lemma pad_props:
  assumes "0 < w" and "n < 10 ^ w"
  shows "length (pad w n) = w" "list_all is_digit (pad w n)" "digits_val (pad w n) = n"
proof -
  have "length (show_nat n) \<le> w" using length_show_nat [OF assms] .
  then show "length (pad w n) = w" by (simp add: pad_def)
  have "is_digit (CHR ''0'')" by (simp add: is_digit_def)
  then show "list_all is_digit (pad w n)"
    using show_nat_props [of n] by (auto simp: pad_def list_all_iff)
  show "digits_val (pad w n) = n"
    using show_nat_props [of n] by (simp add: pad_def digits_val_zeros)
qed

lemma matchISO_canonical:
  assumes "length a = 4" "length b = 2" "length c = 2"
    and "list_all is_digit a" "list_all is_digit b" "list_all is_digit c"
  shows "matchISO (a @ ''-'' @ b @ ''-'' @ c @ rest) = Some (a, b, c)"
  using assms by (simp add: matchISO_def nth_append)

lemma take_canonical:
  assumes "length a = 4" "length b = 2" "length c = 2"
  shows "take 10 (a @ ''-'' @ b @ ''-'' @ c @ rest) = a @ ''-'' @ b @ ''-'' @ c"
  using assms by simp

lemma matchISO_digit_first: "matchISO s = Some r \<Longrightarrow> s \<noteq> [] \<and> is_digit (hd s)"
  by (cases s) (auto simp: matchISO_def split: if_splits)


lemma getters_aligned:
  "getUTCFullYear (n * msPerDay) = YearFromDay n"
  "getUTCMonth (n * msPerDay) = MonthFromDay n"
  "getUTCDate (n * msPerDay) = DateFromDay n"
  by (simp_all add: getUTCFullYear_def getUTCMonth_def getUTCDate_def Day_aligned)

lemma iso_take10:
  assumes "0 \<le> YearFromDay n" and "YearFromDay n \<le> 9999"
  shows "take 10 (toISOString (n * msPerDay)) =
     pad 4 (nat (YearFromDay n)) @ ''-'' @ pad 2 (nat (MonthFromDay n + 1)) @ ''-''
       @ pad 2 (nat (DateFromDay n))"
proof -
  have "nat (YearFromDay n) < 10000" using assms by linarith
  then have "nat (YearFromDay n) < 10 ^ 4" by simp
  then have y: "length (pad 4 (nat (YearFromDay n))) = 4"
    using pad_props(1) [of 4 "nat (YearFromDay n)"] by simp
  have "nat (MonthFromDay n + 1) < 100" using MonthFromDay_range [of n] by linarith
  then have "nat (MonthFromDay n + 1) < 10 ^ 2" by simp
  then have m: "length (pad 2 (nat (MonthFromDay n + 1))) = 2"
    using pad_props(1) [of 2 "nat (MonthFromDay n + 1)"] by simp
  have "nat (DateFromDay n) < 100" using DateFromDay_range [of n] by linarith
  then have "nat (DateFromDay n) < 10 ^ 2" by simp
  then have d: "length (pad 2 (nat (DateFromDay n))) = 2"
    using pad_props(1) [of 2 "nat (DateFromDay n)"] by simp
  have "toISOString (n * msPerDay) =
      pad 4 (nat (YearFromDay n)) @ ''-'' @ pad 2 (nat (MonthFromDay n + 1)) @ ''-''
        @ pad 2 (nat (DateFromDay n))
        @ (''T'' @ pad 2 (nat ((n * msPerDay div 3600000) mod 24)) @ '':''
            @ pad 2 (nat ((n * msPerDay div 60000) mod 60)) @ '':''
            @ pad 2 (nat ((n * msPerDay div 1000) mod 60)) @ ''.''
            @ pad 3 (nat (n * msPerDay mod 1000)) @ ''Z'')"
    using assms by (simp add: toISOString_def getters_aligned iso_year_def)
  then show ?thesis using take_canonical [OF y m d] by simp
qed

lemma iso_signed:
  assumes "\<not> (0 \<le> YearFromDay n \<and> YearFromDay n \<le> 9999)"
  shows "matchISO (take 10 (toISOString (n * msPerDay))) = None"
proof (rule ccontr)
  assume "matchISO (take 10 (toISOString (n * msPerDay))) \<noteq> None"
  then obtain r where "matchISO (take 10 (toISOString (n * msPerDay))) = Some r" by auto
  then have "is_digit (hd (take 10 (toISOString (n * msPerDay))))"
    using matchISO_digit_first by blast
  moreover have "hd (take 10 (toISOString (n * msPerDay))) = CHR ''-''
      \<or> hd (take 10 (toISOString (n * msPerDay))) = CHR ''+''"
    using assms by (simp add: toISOString_def getters_aligned iso_year_def)
  ultimately show False by (auto simp: is_digit_def)
qed

lemma digit_not_space: "is_digit c \<Longrightarrow> \<not> js_space c"
  by (auto simp: is_digit_def js_space_def)

lemma trim_id:
  assumes "s \<noteq> []" and "\<not> js_space (hd s)" and "\<not> js_space (last s)"
  shows "trim s = s"
proof -
  have "dropWhile js_space s = s" using assms(1,2) by (cases s) auto
  moreover have "dropWhile js_space (rev s) = rev s"
    using assms(1,3) by (cases "rev s") (auto simp: last_rev [symmetric] simp del: last_rev)
  ultimately show ?thesis by (simp add: trim_def)
qed

lemma canonical_again:
  assumes valid: "TimeClip (n * msPerDay) = Some (n * msPerDay)"
    and m: "matchISO (take 10 (toISOString (n * msPerDay))) = Some (y, mo, d)"
    and lo: "1900 \<le> num y" and hi: "num y \<le> 3000"
  shows "buildISODate (num y) (num mo) (num d) = Some (take 10 (toISOString (n * msPerDay)))"
    and "trim (take 10 (toISOString (n * msPerDay))) = take 10 (toISOString (n * msPerDay))"
    and "take 10 (toISOString (n * msPerDay)) \<noteq> []"
proof -
  let ?s = "take 10 (toISOString (n * msPerDay))"
  let ?Y = "YearFromDay n" and ?M = "MonthFromDay n" and ?D = "DateFromDay n"
  have range: "0 \<le> ?Y \<and> ?Y \<le> 9999"
    using iso_signed [of n] m by auto
  have "nat ?Y < 10000" using range by linarith
  then have ylt: "nat ?Y < 10 ^ 4" by simp
  have "nat (?M + 1) < 100" using MonthFromDay_range [of n] by linarith
  then have mlt: "nat (?M + 1) < 10 ^ 2" by simp
  have "nat ?D < 100" using DateFromDay_range [of n] by linarith
  then have dlt: "nat ?D < 10 ^ 2" by simp
  have py: "length (pad 4 (nat ?Y)) = 4" "list_all is_digit (pad 4 (nat ?Y))"
      "digits_val (pad 4 (nat ?Y)) = nat ?Y"
    using pad_props [OF _ ylt] by simp_all
  have pm: "length (pad 2 (nat (?M + 1))) = 2" "list_all is_digit (pad 2 (nat (?M + 1)))"
      "digits_val (pad 2 (nat (?M + 1))) = nat (?M + 1)"
    using pad_props [OF _ mlt] by simp_all
  have pd: "length (pad 2 (nat ?D)) = 2" "list_all is_digit (pad 2 (nat ?D))"
      "digits_val (pad 2 (nat ?D)) = nat ?D"
    using pad_props [OF _ dlt] by simp_all
  have s: "?s = pad 4 (nat ?Y) @ ''-'' @ pad 2 (nat (?M + 1)) @ ''-'' @ pad 2 (nat ?D)"
    using iso_take10 range by simp
  have "matchISO ?s = Some (pad 4 (nat ?Y), pad 2 (nat (?M + 1)), pad 2 (nat ?D))"
    unfolding s using matchISO_canonical [OF py(1) pm(1) pd(1) py(2) pm(2) pd(2), of "[]"] by simp
  then have caps: "y = pad 4 (nat ?Y)" "mo = pad 2 (nat (?M + 1))" "d = pad 2 (nat ?D)"
    using m by simp_all
  have nums: "num y = ?Y" "num mo = ?M + 1" "num d = ?D"
    using range MonthFromDay_range [of n] DateFromDay_range [of n]
    by (simp_all add: num_def caps py(3) pm(3) pd(3))
  have utc: "Date_UTC ?Y ?M ?D = Some (n * msPerDay)"
    using lo nums(1) valid by (simp add: Date_UTC_def MakeDay_components)
  show "buildISODate (num y) (num mo) (num d) = Some ?s"
    using lo hi MonthFromDay_range [of n] DateFromDay_range [of n]
    by (simp add: buildISODate_def nums utc getters_aligned)
  show "?s \<noteq> []" using s py(1) by auto
  have "hd ?s = hd (pad 4 (nat ?Y))" using s py(1) by (cases "pad 4 (nat ?Y)") auto
  moreover have "is_digit (hd (pad 4 (nat ?Y)))"
    using py(1,2) by (cases "pad 4 (nat ?Y)") auto
  moreover have "last ?s = last (pad 2 (nat ?D))" using s pd(1) by auto
  moreover have "is_digit (last (pad 2 (nat ?D)))"
    using pd(1,2) by (cases "pad 2 (nat ?D)" rule: rev_cases) auto
  ultimately show "trim ?s = ?s"
    using \<open>?s \<noteq> []\<close> by (intro trim_id) (simp_all add: digit_not_space)
qed

lemma Date_UTC_aligned:
  "Date_UTC a b c = Some t \<Longrightarrow> \<exists>n. t = n * msPerDay \<and> TimeClip (n * msPerDay) = Some (n * msPerDay)"
  by (auto simp: Date_UTC_def TimeClip_def split: if_splits)

lemma utc_date_string_text: "utc_date_string t = Inr s \<Longrightarrow> day_text s"
  unfolding utc_date_string_def day_text_def
  by (auto split: option.splits dest: Date_UTC_aligned)

lemma buildISODate_text: "buildISODate a b c = Some s \<Longrightarrow> day_text s"
  unfolding buildISODate_def day_text_def
  by (auto split: option.splits if_splits dest: Date_UTC_aligned)

lemma normalize_string_text: "normalize_string rt x = Some s \<Longrightarrow> day_text s"
  unfolding normalize_string_def Let_def
  by (auto split: option.splits if_splits sum.splits prod.splits
      dest: buildISODate_text utc_date_string_text)

lemma normalizeDate_text: "normalizeDate rt x = Inr (Some s) \<Longrightarrow> day_text s"
  unfolding normalizeDate_def
  by (auto split: jsval.splits option.splits if_splits sum.splits
      dest: normalize_string_text utc_date_string_text)

text \<open>
  Claim C6, as amended. For every input, a string or a Date, on which \<^verbatim>\<open>normalizeDate\<close>
  returns a string of the form \<^verbatim>\<open>YYYY-MM-DD\<close> whose year lies between 1900 and 3000,
  normalising that string returns it again.
\<close>

theorem normalizeDate_idempotent:
  assumes "normalizeDate rt x = Inr (Some s)"
    and "matchISO s = Some (y, m, d)" and "1900 \<le> num y" and "num y \<le> 3000"
  shows "normalizeDate rt (JStr s) = Inr (Some s)"
proof -
  obtain n where n: "TimeClip (n * msPerDay) = Some (n * msPerDay)"
      "s = take 10 (toISOString (n * msPerDay))"
    using normalizeDate_text [OF assms(1)] by (auto simp: day_text_def)
  have again: "buildISODate (num y) (num m) (num d) = Some s" "trim s = s" "s \<noteq> []"
    using canonical_again [OF n(1) assms(2) [unfolded n(2)] assms(3,4)] n(2) by simp_all
  show ?thesis
    using again assms(2) by (simp add: normalizeDate_def normalize_string_def)
qed


lemmas date_eval = normalizeDate_def normalize_string_def trim_def js_space_def matchISO_def
  match_sep_def starts_with_def is_digit_def num_def digits_val_def digit_val_def buildISODate_def
  utc_date_string_def Date_UTC_def TimeClip_def MakeDay_def getUTCFullYear_def getUTCMonth_def
  getUTCDate_def Day_def msPerDay_def YearFromDay_def year_search.simps DayFromYear_def
  DaysInYear_def InLeapYear_def MonthFromDay_def DateFromDay_def DayWithinYear_def month_start_def
  toISOString_def iso_year_def pad_def show_nat.simps digit_char_def

text \<open>
  Claim C6 as stated covers every input with a canonical result. A Date is not subject to
  the range of years that \<^verbatim>\<open>buildISODate\<close> imposes on strings: the Date of
  31 December 1899 is normalised to \<^verbatim>\<open>1899-12-31\<close>, and normalising that string gives
  \<^verbatim>\<open>null\<close>.
\<close>

theorem normalizeDate_not_idempotent:
  "\<forall>rt. normalizeDate rt (JDate (Some (- 2209075200000))) = Inr (Some ''1899-12-31'')
      \<and> normalizeDate rt (JStr ''1899-12-31'') = Inr None"
  by (simp add: date_eval)

theorem normalizeDate_idempotent_witness:
  "\<forall>rt. normalizeDate rt (JStr ''15/03/2023'') = Inr (Some ''2023-03-15'')
      \<and> normalizeDate rt (JDate (Some 1678838412345)) = Inr (Some ''2023-03-15'')
      \<and> normalizeDate rt (JStr ''2023-03-15'') = Inr (Some ''2023-03-15'')"
proof
  fix rt
  have a: "normalizeDate rt (JStr ''15/03/2023'') = Inr (Some ''2023-03-15'')"
    by (simp add: date_eval)
  have b: "normalizeDate rt (JDate (Some 1678838412345)) = Inr (Some ''2023-03-15'')"
    by (simp add: date_eval)
  have m: "matchISO ''2023-03-15'' = Some (''2023'', ''03'', ''15'')"
    by (simp add: matchISO_def is_digit_def)
  have y: "1900 \<le> num ''2023''" "num ''2023'' \<le> 3000"
    by (simp_all add: num_def digits_val_def digit_val_def)
  from normalizeDate_idempotent [OF b m y] a b
  show "normalizeDate rt (JStr ''15/03/2023'') = Inr (Some ''2023-03-15'')
      \<and> normalizeDate rt (JDate (Some 1678838412345)) = Inr (Some ''2023-03-15'')
      \<and> normalizeDate rt (JStr ''2023-03-15'') = Inr (Some ''2023-03-15'')"
    by simp
qed

lemma InLeapYear_leap_year: "InLeapYear y = leap_year y"
  using leap_divisors [of y] by (auto simp: InLeapYear_def DaysInYear_def leap_year_def)

lemma buildISODate_reconstructs: "buildISODate y m d = Some s \<Longrightarrow> reconstructs y m d"
  by (auto simp: buildISODate_def reconstructs_def split: if_splits option.splits)

lemma reconstructs_real:
  assumes "reconstructs y m d" and "1 \<le> m" "m \<le> 12" "1 \<le> d" "d \<le> 31" "1900 \<le> y"
  shows "real_date y m d"
proof -
  let ?n = "MakeDay y (m - 1) d"
  have mk: "?n = DayFromYear y + month_start (m - 1) (InLeapYear y) + d - 1"
    using assms(2,3) by (simp add: MakeDay_def)
  obtain t where t: "Date_UTC y (m - 1) d = Some t" "getUTCFullYear t = y" "getUTCMonth t = m - 1"
    using assms(1) by (auto simp: reconstructs_def split: option.splits)
  have "t = ?n * msPerDay" using t(1) assms(6) by (auto simp: Date_UTC_def TimeClip_def split: if_splits)
  then have y: "YearFromDay ?n = y" and mo: "MonthFromDay ?n = m - 1"
    using t(2,3) by (simp_all add: getters_aligned)
  have dwy: "DayWithinYear ?n = month_start (m - 1) (InLeapYear y) + d - 1"
    by (simp only: DayWithinYear_def y) (simp add: mk)
  define dy where "dy = month_start (m - 1) (leap_year y) + d - 1"
  define leap where "leap = leap_year y"
  have chain: "(if dy < month_start 1 leap then 0 else if dy < month_start 2 leap then 1
      else if dy < month_start 3 leap then 2 else if dy < month_start 4 leap then 3
      else if dy < month_start 5 leap then 4 else if dy < month_start 6 leap then 5
      else if dy < month_start 7 leap then 6 else if dy < month_start 8 leap then 7
      else if dy < month_start 9 leap then 8 else if dy < month_start 10 leap then 9
      else if dy < month_start 11 leap then 10 else 11) = m - 1"
    using mo unfolding MonthFromDay_def Let_def dwy y InLeapYear_leap_year dy_def leap_def .
  have cases: "m = 1 \<or> m = 2 \<or> m = 3 \<or> m = 4 \<or> m = 5 \<or> m = 6 \<or> m = 7 \<or> m = 8 \<or> m = 9
      \<or> m = 10 \<or> m = 11 \<or> m = 12"
    using assms(2,3) by arith
  have "d \<le> days_in_month y m"
    using cases chain assms(4,5) unfolding dy_def leap_def
    by (elim disjE) (simp_all add: month_start_def days_in_month_def split: if_splits)
  then show ?thesis using assms(2,3,4) by (simp add: real_date_def)
qed

lemma buildISODate_real: "buildISODate y m d = Some s \<Longrightarrow> real_date y m d"
proof -
  assume a: "buildISODate y m d = Some s"
  then have "1 \<le> m" "m \<le> 12" "1 \<le> d" "d \<le> 31" "1900 \<le> y"
    by (auto simp: buildISODate_def split: if_splits)
  then show ?thesis using reconstructs_real [OF buildISODate_reconstructs [OF a]] by simp
qed

lemma takeWhile_covers:
  "list_all P (take k s) \<Longrightarrow> k \<le> length s \<Longrightarrow> k \<le> length (takeWhile P s)"
proof (induction s arbitrary: k)
  case Nil
  then show ?case by simp
next
  case (Cons c s)
  then show ?case by (cases k) auto
qed

lemma match_sep_not_ISO:
  assumes "match_sep c s = Some r"
  shows "matchISO s = None"
proof (rule ccontr)
  assume "matchISO s \<noteq> None"
  then have "list_all is_digit (take 4 s)" "4 \<le> length s"
    by (auto simp: matchISO_def split: if_splits)
  then have "4 \<le> length (takeWhile is_digit s)" by (rule takeWhile_covers)
  moreover have "length (takeWhile is_digit s) \<le> 2"
    using assms by (auto simp: match_sep_def Let_def split: if_splits)
  ultimately show False by simp
qed

lemma match_sep_nonempty: "match_sep c s = Some r \<Longrightarrow> s \<noteq> []"
  by (auto simp: match_sep_def Let_def split: if_splits)

lemma trim_Nil [simp]: "trim [] = []"
  by (simp add: trim_def)

lemma normalizeDate_DMY:
  assumes "match_sep (CHR ''/'') (trim s) = Some (d, m, y)"
  shows "normalizeDate rt (JStr s) = Inr (buildISODate (num y) (num m) (num d))"
proof -
  have "trim s \<noteq> []" using match_sep_nonempty [OF assms] .
  then have "s \<noteq> []" by auto
  then show ?thesis
    using assms match_sep_not_ISO [OF assms] \<open>trim s \<noteq> []\<close>
    by (simp add: normalizeDate_def normalize_string_def)
qed

text \<open>
  Claim C4. \<^verbatim>\<open>normalizeDate("31/02/2023")\<close> is \<^verbatim>\<open>null\<close> and
  \<^verbatim>\<open>normalizeDate("15/03/2023")\<close> is \<^verbatim>\<open>2023-03-15\<close>. For every string whose trimmed
  text matches the pattern DD/MM/YYYY, the result is \<^verbatim>\<open>null\<close> whenever the date rebuilt
  in UTC does not give back the extracted year, month and day, and whenever the extracted
  day, month and year are not a date of the calendar.
\<close>

theorem normalizeDate_calendar:
  "normalizeDate rt (JStr ''31/02/2023'') = Inr None
   \<and> normalizeDate rt (JStr ''15/03/2023'') = Inr (Some ''2023-03-15'')
   \<and> (match_sep (CHR ''/'') (trim s) = Some (d, m, y) \<and> \<not> reconstructs (num y) (num m) (num d)
        \<longrightarrow> normalizeDate rt (JStr s) = Inr None)
   \<and> (match_sep (CHR ''/'') (trim s) = Some (d, m, y) \<and> \<not> real_date (num y) (num m) (num d)
        \<longrightarrow> normalizeDate rt (JStr s) = Inr None)"
proof (intro conjI impI)
  show "normalizeDate rt (JStr ''31/02/2023'') = Inr None"
    by (simp add: date_eval)
  show "normalizeDate rt (JStr ''15/03/2023'') = Inr (Some ''2023-03-15'')"
    by (simp add: date_eval)
next
  assume a: "match_sep (CHR ''/'') (trim s) = Some (d, m, y) \<and> \<not> reconstructs (num y) (num m) (num d)"
  then have "buildISODate (num y) (num m) (num d) = None"
    using buildISODate_reconstructs by (cases "buildISODate (num y) (num m) (num d)") auto
  then show "normalizeDate rt (JStr s) = Inr None"
    using a normalizeDate_DMY by simp
next
  assume a: "match_sep (CHR ''/'') (trim s) = Some (d, m, y) \<and> \<not> real_date (num y) (num m) (num d)"
  then have "buildISODate (num y) (num m) (num d) = None"
    using buildISODate_real by (cases "buildISODate (num y) (num m) (num d)") auto
  then show "normalizeDate rt (JStr s) = Inr None"
    using a normalizeDate_DMY by simp
qed

theorem normalizeDate_calendar_witness:
  "\<forall>rt. normalizeDate rt (JStr '' 29/2/2023 '') = Inr None
      \<and> normalizeDate rt (JStr ''31/04/2024'') = Inr None"
proof
  fix rt
  have a: "match_sep (CHR ''/'') (trim '' 29/2/2023 '') = Some (''29'', ''2'', ''2023'')"
    "match_sep (CHR ''/'') (trim ''31/04/2024'') = Some (''31'', ''04'', ''2024'')"
    by (simp_all add: match_sep_def trim_def js_space_def is_digit_def starts_with_def)
  have b: "\<not> real_date (num ''2023'') (num ''2'') (num ''29'')"
    "\<not> real_date (num ''2024'') (num ''04'') (num ''31'')"
    by (simp_all add: real_date_def days_in_month_def leap_year_def num_def digits_val_def
        digit_val_def)
  show "normalizeDate rt (JStr '' 29/2/2023 '') = Inr None
      \<and> normalizeDate rt (JStr ''31/04/2024'') = Inr None"
    using normalizeDate_calendar [of rt "'' 29/2/2023 ''" "''29''" "''2''" "''2023''"]
      normalizeDate_calendar [of rt "''31/04/2024''" "''31''" "''04''" "''2024''"] a b
    by simp
qed

end
